theory Spec2Isabelle
  imports Main "HOL-Library.AList" "HOL-Library.Char_ord" "HOL-Library.List_Lexorder" "HOL-Library.Word"
begin

section \<open>Python strings\<close>

text \<open>
  A Python \<open>str\<close> is modelled as a \<open>string\<close> (a list of characters); a \<open>char\<close> stands for
  a code point below 256. The identifiers, type names and SQL keywords the migration
  pipeline handles are ASCII.
\<close>

definition py_isspace :: "char \<Rightarrow> bool" where
  \<comment> \<open>\<open>str.isspace\<close> on one code point below 256: TAB, LF, VT, FF, CR, FS, GS, RS, US,
      SPACE, NEL and NBSP.\<close>
  "py_isspace c = (c \<in> set [CHR 0x09, CHR 0x0A, CHR 0x0B, CHR 0x0C, CHR 0x0D,
                            CHR 0x1C, CHR 0x1D, CHR 0x1E, CHR 0x1F, CHR 0x20,
                            CHR 0x85, CHR 0xA0])"

definition py_lstrip :: "string \<Rightarrow> string" where
  "py_lstrip s = dropWhile py_isspace s"

definition py_rstrip :: "string \<Rightarrow> string" where
  "py_rstrip s = rev (dropWhile py_isspace (rev s))"

definition py_strip :: "string \<Rightarrow> string" where
  \<comment> \<open>\<open>s.strip()\<close>\<close>
  "py_strip s = py_rstrip (py_lstrip s)"

definition upper_char :: "char \<Rightarrow> char" where
  \<comment> \<open>\<open>str.upper\<close> on one ASCII character; other characters are left as they are.\<close>
  "upper_char c =
     (case map_of (zip ''abcdefghijklmnopqrstuvwxyz'' ''ABCDEFGHIJKLMNOPQRSTUVWXYZ'') c of
        Some u \<Rightarrow> u | None \<Rightarrow> c)"

definition py_upper :: "string \<Rightarrow> string" where
  "py_upper s = map upper_char s"

definition py_startswith :: "string \<Rightarrow> string \<Rightarrow> bool" where
  \<comment> \<open>\<open>s.startswith(p)\<close>\<close>
  "py_startswith s p = (take (length p) s = p)"

definition py_endswith :: "string \<Rightarrow> string \<Rightarrow> bool" where
  \<comment> \<open>\<open>s.endswith(p)\<close>\<close>
  "py_endswith s p = (length p \<le> length s \<and> drop (length s - length p) s = p)"

fun py_contains :: "string \<Rightarrow> string \<Rightarrow> bool" where
  \<comment> \<open>\<open>sub in s\<close>\<close>
  "py_contains sub [] = (sub = [])"
| "py_contains sub (c # cs) = (py_startswith (c # cs) sub \<or> py_contains sub cs)"

section \<open>Type mapping (\<open>src/tools/sql_transformer.py\<close>)\<close>

definition TYPE_MAPPINGS :: "(string \<times> string) list" where
  "TYPE_MAPPINGS =
    [(''TINYINT'', ''SMALLINT''),
     (''TINYINT UNSIGNED'', ''SMALLINT''),
     (''SMALLINT UNSIGNED'', ''INTEGER''),
     (''MEDIUMINT'', ''INTEGER''),
     (''MEDIUMINT UNSIGNED'', ''INTEGER''),
     (''INT'', ''INTEGER''),
     (''INT UNSIGNED'', ''BIGINT''),
     (''INTEGER'', ''INTEGER''),
     (''INTEGER UNSIGNED'', ''BIGINT''),
     (''BIGINT'', ''BIGINT''),
     (''BIGINT UNSIGNED'', ''NUMERIC(20)''),
     (''FLOAT'', ''REAL''),
     (''DOUBLE'', ''DOUBLE PRECISION''),
     (''DOUBLE PRECISION'', ''DOUBLE PRECISION''),
     (''DECIMAL'', ''NUMERIC''),
     (''TINYTEXT'', ''TEXT''),
     (''TEXT'', ''TEXT''),
     (''MEDIUMTEXT'', ''TEXT''),
     (''LONGTEXT'', ''TEXT''),
     (''TINYBLOB'', ''BYTEA''),
     (''BLOB'', ''BYTEA''),
     (''MEDIUMBLOB'', ''BYTEA''),
     (''LONGBLOB'', ''BYTEA''),
     (''BINARY'', ''BYTEA''),
     (''VARBINARY'', ''BYTEA''),
     (''DATETIME'', ''TIMESTAMP''),
     (''TIMESTAMP'', ''TIMESTAMP''),
     (''DATE'', ''DATE''),
     (''TIME'', ''TIME''),
     (''YEAR'', ''SMALLINT''),
     (''TINYINT(1)'', ''BOOLEAN''),
     (''BIT'', ''BOOLEAN''),
     (''BIT(1)'', ''BOOLEAN''),
     (''JSON'', ''JSONB''),
     (''GEOMETRY'', ''GEOMETRY''),
     (''POINT'', ''POINT'')]"

definition map_type :: "string \<Rightarrow> string" where
  \<comment> \<open>\<open>SQLTransformer.map_type\<close>; \<open>self.type_mappings\<close> is a copy of \<open>TYPE_MAPPINGS\<close>.\<close>
  "map_type mysql_type =
     (let mysql_type_upper = py_strip (py_upper mysql_type) in
      case map_of TYPE_MAPPINGS mysql_type_upper of
        Some t \<Rightarrow> t
      | None \<Rightarrow>
          (let base_type = py_strip (takeWhile (\<lambda>c. c \<noteq> CHR ''('') mysql_type_upper) in
           case map_of TYPE_MAPPINGS base_type of
             Some t \<Rightarrow>
               (if base_type \<in> set [''VARCHAR'', ''CHAR'', ''DECIMAL'', ''NUMERIC'']
                then t @ drop (length base_type) mysql_type
                else t)
           | None \<Rightarrow>
               (if py_startswith mysql_type_upper ''ENUM'' then ''TEXT''
                else if py_startswith mysql_type_upper ''SET'' then ''TEXT[]''
                else mysql_type)))"


section \<open>Schema model (\<open>src/state.py\<close>, \<open>src/tools/mysql_introspection.py\<close>)\<close>

text \<open>
  The introspector stores columns, indexes and foreign keys as dictionaries with a fixed
  set of keys; each becomes a record. A value that may be \<open>None\<close> (JSON \<open>null\<close>) is an
  \<open>option\<close>.
\<close>

record Column =
  col_name :: string
  col_type :: string
  col_nullable :: bool
  col_default :: "string option"
  col_autoincrement :: bool

record Index =
  idx_name :: "string option"
  idx_columns :: "string list"
  idx_unique :: bool

record ForeignKey =
  fk_name :: "string option"
  fk_columns :: "string list"
  referred_table :: string
  referred_columns :: "string list"

record TableMetadata =
  table_name :: string
  columns :: "Column list"
  primary_key :: "string list"
  indexes :: "Index list"
  foreign_keys :: "ForeignKey list"
  row_count :: "int option"

section \<open>Circular foreign keys (\<open>src/agents/blueprint_agent.py\<close>)\<close>

fun add_referred :: "string \<Rightarrow> ForeignKey list \<Rightarrow> string set \<Rightarrow> string set" where
  \<comment> \<open>the inner loop of \<open>_detect_circular_fks\<close>: \<open>if referred and referred != table.name\<close>\<close>
  "add_referred tname [] refs = refs"
| "add_referred tname (fk # fks) refs =
     add_referred tname fks
       (if referred_table fk \<noteq> [] \<and> referred_table fk \<noteq> tname
        then insert (referred_table fk) refs else refs)"

fun build_fk_graph ::
  "TableMetadata list \<Rightarrow> (string \<times> string set) list \<Rightarrow> (string \<times> string set) list" where
  \<comment> \<open>the dictionary \<open>fk_graph\<close>, in insertion order; \<open>fk_graph[table.name] = set()\<close>
      replaces an earlier entry of the same name\<close>
  "build_fk_graph [] fk_graph = fk_graph"
| "build_fk_graph (t # ts) fk_graph =
     build_fk_graph ts
       (AList.update (table_name t) (add_referred (table_name t) (foreign_keys t) {}) fk_graph)"

definition sorted_pair :: "string \<Rightarrow> string \<Rightarrow> string \<times> string" where
  \<comment> \<open>\<open>tuple(sorted([a, b]))\<close>; Python compares strings code point by code point\<close>
  "sorted_pair a b = (if b < a then (b, a) else (a, b))"

definition circular_pairs_of ::
  "(string \<times> string set) list \<Rightarrow> string \<times> string set \<Rightarrow> (string \<times> string) set" where
  \<comment> \<open>the pairs one item \<open>(table_a, refs)\<close> of \<open>fk_graph.items()\<close> contributes\<close>
  "circular_pairs_of fk_graph item =
     (case item of (table_a, refs) \<Rightarrow>
        sorted_pair table_a `
          Set.filter (\<lambda>table_b. case map_of fk_graph table_b of
                                  None \<Rightarrow> False
                                | Some refs_b \<Rightarrow> table_a \<in> refs_b) refs)"

definition detect_circular_fks :: "TableMetadata list \<Rightarrow> (string \<times> string) set" where
  \<comment> \<open>\<open>BlueprintAgent._detect_circular_fks\<close>\<close>
  "detect_circular_fks tables =
     (let fk_graph = build_fk_graph tables []
      in \<Union> (set (map (circular_pairs_of fk_graph) fk_graph)))"

definition is_circular_fk :: "(string \<times> string) set \<Rightarrow> string \<Rightarrow> string \<Rightarrow> bool" where
  \<comment> \<open>the closure \<open>is_circular_fk\<close> of \<open>_create_table_blueprint\<close>\<close>
  "is_circular_fk circular_pairs tname ref_table = (sorted_pair tname ref_table \<in> circular_pairs)"

definition fk_references :: "TableMetadata list \<Rightarrow> string \<Rightarrow> string \<Rightarrow> bool" where
  \<comment> \<open>the schema declares a foreign key from table \<open>a\<close> to table \<open>b\<close>\<close>
  "fk_references tables a b =
     (\<exists>t \<in> set tables. table_name t = a \<and> (\<exists>fk \<in> set (foreign_keys t). referred_table fk = b))"

definition fk_edge :: "TableMetadata list \<Rightarrow> string \<Rightarrow> string \<Rightarrow> bool" where
  \<comment> \<open>\<open>b\<close> is in the adjacency set \<open>fk_graph[a]\<close>\<close>
  "fk_edge tables a b =
     (\<exists>refs. map_of (build_fk_graph tables []) a = Some refs \<and> b \<in> refs)"

definition mk_fk :: "string \<Rightarrow> string list \<Rightarrow> string \<Rightarrow> string list \<Rightarrow> ForeignKey" where
  "mk_fk n cols ref ref_cols =
     \<lparr>fk_name = Some n, fk_columns = cols, referred_table = ref, referred_columns = ref_cols\<rparr>"

definition mk_table :: "string \<Rightarrow> Index list \<Rightarrow> ForeignKey list \<Rightarrow> TableMetadata" where
  "mk_table n idxs fks =
     \<lparr>table_name = n, columns = [], primary_key = [], indexes = idxs, foreign_keys = fks,
      row_count = None\<rparr>"

definition store_staff_tables :: "TableMetadata list" where
  \<comment> \<open>Sakila's mutually referencing pair; \<open>staff\<close> also references itself\<close>
  "store_staff_tables =
     [mk_table ''store'' [] [mk_fk ''fk_store_staff'' [''manager_staff_id''] ''staff'' [''staff_id'']],
      mk_table ''staff'' []
        [mk_fk ''fk_staff_store'' [''store_id''] ''store'' [''store_id''],
         mk_fk ''fk_staff_boss'' [''reports_to''] ''staff'' [''staff_id'']]]"

section \<open>Dependency graph and topological sort (\<open>src/agents/dependency_agent.py\<close>)\<close>

record DependencyNode =
  node_id :: string
  node_name :: string
  node_type :: string
  complexity :: string

record DependencyEdge =
  from_id :: string
  to_id :: string
  edge_type :: string

datatype py_error = KeyError string

text \<open>
  A Python \<open>dict\<close> keeps its keys in insertion order, and the sort reads that order
  twice, so a dictionary is an association list: \<open>AList.update\<close> overwrites the value of a
  present key in place and appends an absent key at the end, \<open>map_of\<close> reads a key, and
  reading an absent key with \<open>d[k]\<close> raises \<open>KeyError\<close>.
\<close>

type_synonym 'v dict = "(string \<times> 'v) list"

definition dict_keys :: "'v dict \<Rightarrow> string list" where
  "dict_keys d = map fst d"

definition dict_get :: "'v dict \<Rightarrow> string \<Rightarrow> 'v \<Rightarrow> 'v" where
  \<comment> \<open>\<open>d.get(k, default)\<close>\<close>
  "dict_get d k dflt = (case map_of d k of None \<Rightarrow> dflt | Some v \<Rightarrow> v)"

text \<open>\<open>_topological_sort\<close>: the two dictionary comprehensions over \<open>nodes\<close>.\<close>

fun init_graph :: "DependencyNode list \<Rightarrow> string list dict \<Rightarrow> string list dict" where
  "init_graph [] graph = graph"
| "init_graph (n # ns) graph = init_graph ns (AList.update (node_id n) [] graph)"

fun init_in_degree :: "DependencyNode list \<Rightarrow> int dict \<Rightarrow> int dict" where
  "init_in_degree [] in_degree = in_degree"
| "init_in_degree (n # ns) in_degree = init_in_degree ns (AList.update (node_id n) 0 in_degree)"

text \<open>The loop over \<open>edges\<close>; an edge with an endpoint outside the graph is skipped.\<close>

definition add_edge ::
  "DependencyEdge \<Rightarrow> string list dict \<times> int dict \<Rightarrow> py_error + string list dict \<times> int dict" where
  "add_edge e s =
     (case s of (graph, in_degree) \<Rightarrow>
        if from_id e \<in> set (dict_keys graph) \<and> to_id e \<in> set (dict_keys graph) then
          (case map_of graph (to_id e) of
             None \<Rightarrow> Inl (KeyError (to_id e))
           | Some dependents \<Rightarrow>
               (case map_of in_degree (from_id e) of
                  None \<Rightarrow> Inl (KeyError (from_id e))
                | Some d \<Rightarrow>
                    Inr (AList.update (to_id e) (dependents @ [from_id e]) graph,
                         AList.update (from_id e) (d + 1) in_degree)))
        else Inr (graph, in_degree))"

fun add_edges ::
  "DependencyEdge list \<Rightarrow> string list dict \<times> int dict \<Rightarrow> py_error + string list dict \<times> int dict" where
  "add_edges [] s = Inr s"
| "add_edges (e # es) s = (case add_edge e s of Inl err \<Rightarrow> Inl err | Inr s' \<Rightarrow> add_edges es s')"

text \<open>
  The \<open>for dependent in graph.get(node_id, [])\<close> loop: decrement, and enqueue on reaching
  zero.
\<close>

fun release :: "string list \<Rightarrow> int dict \<times> string list \<Rightarrow> py_error + int dict \<times> string list" where
  "release [] s = Inr s"
| "release (dependent # ds) s =
     (case s of (in_degree, queue) \<Rightarrow>
        (case map_of in_degree dependent of
           None \<Rightarrow> Inl (KeyError dependent)
         | Some d \<Rightarrow>
             release ds (AList.update dependent (d - 1) in_degree,
                         if d - 1 = 0 then queue @ [dependent] else queue)))"

text \<open>
  The \<open>while queue\<close> loop. It terminates from every state: each iteration removes one
  queue entry and enqueues only keys whose in-degree has just dropped from 1 to 0.
\<close>

definition pending :: "int dict \<Rightarrow> nat" where
  "pending in_degree = length (filter (\<lambda>kv. 0 < snd kv) in_degree)"

lemma pending_update:
  "map_of d k = Some v \<Longrightarrow>
   pending (AList.update k w d) + (if 0 < v then 1 else 0) = pending d + (if 0 < w then 1 else 0)"
  by (induction d) (auto simp: pending_def)

lemma release_measure:
  "release ds (d, q) = Inr (d', q') \<Longrightarrow> length q' + pending d' \<le> length q + pending d"
proof (induction ds arbitrary: d q)
  case Nil
  then show ?case by simp
next
  case (Cons x ds)
  from Cons.prems obtain v where v: "map_of d x = Some v"
    by (auto split: option.splits)
  let ?d = "AList.update x (v - 1) d"
  let ?q = "if v - 1 = 0 then q @ [x] else q"
  from Cons.prems v have "release ds (?d, ?q) = Inr (d', q')"
    by simp
  then have "length q' + pending d' \<le> length ?q + pending ?d"
    by (rule Cons.IH)
  moreover have "length ?q + pending ?d \<le> length q + pending d"
  proof (cases "v - 1 = 0")
    case True
    then have "v = 1" by simp
    then show ?thesis
      using pending_update[OF v, of 0] by simp
  next
    case False
    then show ?thesis
      using pending_update[OF v, of "v - 1"] by (simp split: if_splits)
  qed
  ultimately show ?case by linarith
qed

function kahn_loop ::
  "string list dict \<Rightarrow> int dict \<Rightarrow> string list \<Rightarrow> string list \<Rightarrow> py_error + int dict \<times> string list" where
  "kahn_loop graph in_degree [] result = Inr (in_degree, result)"
| "kahn_loop graph in_degree (node # queue) result =
     (case release (dict_get graph node []) (in_degree, queue) of
        Inl err \<Rightarrow> Inl err
      | Inr (in_degree', queue') \<Rightarrow> kahn_loop graph in_degree' queue' (result @ [node]))"
  by pat_completeness auto
termination
proof (relation "measure (\<lambda>(graph, in_degree, queue, result). length queue + pending in_degree)")
  show "wf (measure (\<lambda>(graph, in_degree, queue, result). length queue + pending in_degree))"
    by simp
next
  fix graph :: "string list dict" and in_degree :: "int dict" and node queue result x2 x y
  assume "release (dict_get graph node []) (in_degree, queue) = Inr x2" "(x, y) = x2"
  then have "release (dict_get graph node []) (in_degree, queue) = Inr (x, y)"
    by simp
  from release_measure[OF this]
  show "((graph, x, y, result @ [node]), (graph, in_degree, node # queue, result))
        \<in> measure (\<lambda>(graph, in_degree, queue, result). length queue + pending in_degree)"
    by simp
qed

definition topological_sort :: "DependencyNode list \<Rightarrow> DependencyEdge list \<Rightarrow> py_error + string list" where
  "topological_sort nodes edges =
     (case add_edges edges (init_graph nodes [], init_in_degree nodes []) of
        Inl err \<Rightarrow> Inl err
      | Inr (graph, in_degree) \<Rightarrow>
          (let queue = map fst (filter (\<lambda>(node, degree). degree = 0) in_degree) in
           case kahn_loop graph in_degree queue [] of
             Inl err \<Rightarrow> Inl err
           | Inr (in_degree', result) \<Rightarrow>
               Inr (result @ filter (\<lambda>n. n \<notin> set result) (dict_keys in_degree'))))"

definition mk_node :: "string \<Rightarrow> DependencyNode" where
  "mk_node n = \<lparr>node_id = ''table:'' @ n, node_name = n, node_type = ''table'', complexity = ''low''\<rparr>"
definition mk_edge :: "string \<Rightarrow> string \<Rightarrow> DependencyEdge" where
  "mk_edge a b = \<lparr>from_id = ''table:'' @ a, to_id = ''table:'' @ b, edge_type = ''foreign_key''\<rparr>"

text \<open>The order in which a dictionary built from a list of keys holds them.\<close>

fun key_order :: "string list \<Rightarrow> string list \<Rightarrow> string list" where
  "key_order [] acc = acc"
| "key_order (k # ks) acc = key_order ks (if k \<in> set acc then acc else acc @ [k])"

text \<open>\<open>xs.index(x)\<close> for an element of \<open>xs\<close> (the length of \<open>xs\<close> otherwise).\<close>

definition index_of :: "'a list \<Rightarrow> 'a \<Rightarrow> nat" where
  "index_of xs x = length (takeWhile (\<lambda>y. y \<noteq> x) xs)"

definition valid_edges :: "string list \<Rightarrow> DependencyEdge list \<Rightarrow> DependencyEdge list" where
  "valid_edges K es = filter (\<lambda>e. from_id e \<in> set K \<and> to_id e \<in> set K) es"

definition topo_sorted :: "DependencyEdge list \<Rightarrow> string list \<Rightarrow> bool" where
  "topo_sorted E R = (\<forall>e \<in> set E. from_id e \<in> set R \<longrightarrow> index_of R (to_id e) < index_of R (from_id e))"

definition kahn_inv ::
  "string list \<Rightarrow> DependencyEdge list \<Rightarrow> int dict \<Rightarrow> string list \<Rightarrow> string list \<Rightarrow> bool" where
  "kahn_inv K E D Q R \<longleftrightarrow>
     dict_keys D = K \<and> distinct (R @ Q) \<and> set (R @ Q) \<subseteq> set K \<and>
     (\<forall>a. dict_get D a 0 = int (length (filter (\<lambda>e. from_id e = a \<and> to_id e \<notin> set R) E))) \<and>
     (\<forall>a \<in> set K. a \<in> set (R @ Q) \<longleftrightarrow> dict_get D a 0 = 0) \<and>
     topo_sorted E R"


text \<open>
  The two parts of the returned order: the nodes the queue loop emitted, and the
  \<open>remaining\<close> ones.
\<close>

definition kahn_processed :: "DependencyNode list \<Rightarrow> DependencyEdge list \<Rightarrow> string list" where
  "kahn_processed nodes edges =
     (case add_edges edges (init_graph nodes [], init_in_degree nodes []) of
        Inl err \<Rightarrow> []
      | Inr (graph, in_degree) \<Rightarrow>
          (case kahn_loop graph in_degree
                  (map fst (filter (\<lambda>(node, degree). degree = 0) in_degree)) [] of
             Inl err \<Rightarrow> []
           | Inr (in_degree', result) \<Rightarrow> result))"

definition kahn_stuck :: "DependencyNode list \<Rightarrow> DependencyEdge list \<Rightarrow> string list" where
  "kahn_stuck nodes edges =
     filter (\<lambda>n. n \<notin> set (kahn_processed nodes edges)) (key_order (map node_id nodes) [])"

definition mixed_nodes :: "DependencyNode list" where
  "mixed_nodes = [mk_node ''a'', mk_node ''b'', mk_node ''c'', mk_node ''d'']"

definition mixed_edges :: "DependencyEdge list" where
  "mixed_edges = [mk_edge ''a'' ''b'', mk_edge ''c'' ''d'', mk_edge ''d'' ''c'', mk_edge ''c'' ''b'']"

definition cycle_nodes :: "DependencyNode list" where
  "cycle_nodes = [mk_node ''a'', mk_node ''b'', mk_node ''c'']"

definition cycle_edges :: "DependencyEdge list" where
  "cycle_edges = [mk_edge ''a'' ''b'', mk_edge ''b'' ''c'', mk_edge ''c'' ''b'']"

section \<open>Pipeline state (\<open>src/state.py\<close>)\<close>

datatype MigrationStatus = PENDING | IN_PROGRESS | SUCCESS | FAILED | NEEDS_RETRY

datatype MigrationPhase =
  INITIALIZED | INTROSPECTION | DEPENDENCY_ANALYSIS | PLANNING | SCHEMA_TRANSFORMATION
  | LOGIC_CONVERSION | SANDBOX_TESTING | DATA_MIGRATION | VALIDATION | BENCHMARKING
  | REPORTING | COMPLETED | PHASE_FAILED

record DependencyGraph =
  graph_nodes :: "DependencyNode list"
  graph_edges :: "DependencyEdge list"
  migration_order :: "string list"

record TransformedDDL =
  object_name :: string
  object_type :: string
  source_ddl :: string
  target_ddl :: string
  status :: MigrationStatus

record ConvertedProcedure =
  proc_name :: string
  procedure_type :: string
  source_code :: string
  target_code :: string
  proc_status :: MigrationStatus

record SandboxResult =
  result_object_name :: string
  result_object_type :: string
  executed :: bool
  errors :: "string list"
  warnings :: "string list"
  retry_count :: int

record MigrationState =
  current_phase :: MigrationPhase
  dependency_graph :: "DependencyGraph option"
  transformed_ddl :: "TransformedDDL list"
  converted_procedures :: "ConvertedProcedure list"
  sandbox_results :: "SandboxResult list"
  current_retry_count :: int
  sandbox_retry_count :: int

section \<open>Sandbox pass (\<open>src/agents/sandbox_agent.py\<close>, \<open>src/tools/pg_executor.py\<close>)\<close>

text \<open>
  The sandbox database is outside the program. \<open>execute_ddl\<close> catches every exception
  and returns either success or the error text, so the database is a state \<open>'db\<close> with
  an arbitrary step function, the executor. Every call is appended to a log, so that the
  order of the calls can be stated. The two text rewriters, \<open>_attempt_fix\<close> and
  \<open>_fix_view_schema_references\<close> (regular-expression substitutions), are parameters:
  what is proved holds for every rewriting. The DDL objects are mutated in place through
  aliases of \<open>state.transformed_ddl\<close>; the model addresses them by position in that list.
  Saving the result artifact is left out.
\<close>

datatype exec_result = ExecOk | ExecFailed string

datatype sandbox_call = ExecDDL string string string | ExecProcedure string string string

type_synonym 'db executor = "string \<Rightarrow> 'db \<Rightarrow> exec_result \<times> 'db"

type_synonym 'db world = "'db \<times> sandbox_call list"

definition execute_ddl ::
  "'db executor \<Rightarrow> sandbox_call \<Rightarrow> string \<Rightarrow> 'db world \<Rightarrow> exec_result \<times> 'db world" where
  "execute_ddl exec call sql w =
     (case w of (db, log) \<Rightarrow>
        (case exec sql db of (r, db') \<Rightarrow> (r, (db', log @ [call]))))"

definition error_list :: "string \<Rightarrow> string list" where
  \<comment> \<open>\<open>[result["error"]] if result["error"] else []\<close>\<close>
  "error_list err = (if err \<noteq> [] then [err] else [])"

definition execute_and_record ::
  "'db executor \<Rightarrow> (string \<Rightarrow> string \<Rightarrow> string) \<Rightarrow> nat \<Rightarrow>
   'db world \<times> TransformedDDL list \<times> SandboxResult list \<Rightarrow>
   'db world \<times> TransformedDDL list \<times> SandboxResult list" where
  "execute_and_record exec attempt_fix i s =
     (case s of (w, ddls, results) \<Rightarrow>
      (let ddl = ddls ! i;
           call = ExecDDL (object_type ddl) (object_name ddl)
       in case execute_ddl exec (call (target_ddl ddl)) (target_ddl ddl) w of
            (ExecOk, w1) \<Rightarrow>
              (w1, ddls[i := ddl\<lparr>status := SUCCESS\<rparr>],
               results @ [\<lparr>result_object_name = object_name ddl,
                            result_object_type = object_type ddl,
                            executed = True, errors = [], warnings = [], retry_count = 0\<rparr>])
          | (ExecFailed err, w1) \<Rightarrow>
              (let sandbox_result =
                     \<lparr>result_object_name = object_name ddl,
                      result_object_type = object_type ddl,
                      executed = False, errors = error_list err, warnings = [],
                      retry_count = 0\<rparr>;
                   fixed_ddl = attempt_fix (target_ddl ddl) err
               in if fixed_ddl \<noteq> target_ddl ddl then
                    (case execute_ddl exec (call fixed_ddl) fixed_ddl w1 of
                       (ExecOk, w2) \<Rightarrow>
                         (w2, ddls[i := ddl\<lparr>target_ddl := fixed_ddl, status := SUCCESS\<rparr>],
                          results @ [sandbox_result\<lparr>executed := True, errors := [],
                                                     retry_count := 1\<rparr>])
                     | (ExecFailed err2, w2) \<Rightarrow>
                         (w2, ddls[i := ddl\<lparr>status := FAILED\<rparr>],
                          results @ [sandbox_result\<lparr>errors := errors sandbox_result @ [err2],
                                                     retry_count := 1\<rparr>]))
                  else (w1, ddls[i := ddl\<lparr>status := FAILED\<rparr>], results @ [sandbox_result]))))"

definition execute_view ::
  "'db executor \<Rightarrow> (string \<Rightarrow> string \<Rightarrow> string) \<Rightarrow> (string \<Rightarrow> string) \<Rightarrow> nat \<Rightarrow>
   'db world \<times> TransformedDDL list \<times> SandboxResult list \<Rightarrow>
   'db world \<times> TransformedDDL list \<times> SandboxResult list" where
  "execute_view exec attempt_fix fix_view_schema_references i s =
     (case s of (w, ddls, results) \<Rightarrow>
        execute_and_record exec attempt_fix i
          (w, ddls[i := (ddls ! i)\<lparr>target_ddl := fix_view_schema_references (target_ddl (ddls ! i))\<rparr>],
           results))"

definition execute_procedure ::
  "'db executor \<Rightarrow> nat \<Rightarrow>
   'db world \<times> ConvertedProcedure list \<times> SandboxResult list \<Rightarrow>
   'db world \<times> ConvertedProcedure list \<times> SandboxResult list" where
  "execute_procedure exec j s =
     (case s of (w, procs, results) \<Rightarrow>
      (let proc = procs ! j in
       case execute_ddl exec (ExecProcedure (procedure_type proc) (proc_name proc) (target_code proc))
              (target_code proc) w of
         (ExecOk, w1) \<Rightarrow>
           (w1, procs[j := proc\<lparr>proc_status := SUCCESS\<rparr>],
            results @ [\<lparr>result_object_name = proc_name proc,
                         result_object_type = procedure_type proc,
                         executed = True, errors = [], warnings = [], retry_count = 0\<rparr>])
       | (ExecFailed err, w1) \<Rightarrow>
           (w1, procs[j := proc\<lparr>proc_status := FAILED\<rparr>],
            results @ [\<lparr>result_object_name = proc_name proc,
                         result_object_type = procedure_type proc,
                         executed = False, errors = error_list err, warnings = [],
                         retry_count = 0\<rparr>])))"

definition indices_of_type :: "string \<Rightarrow> TransformedDDL list \<Rightarrow> nat list" where
  \<comment> \<open>\<open>[d for d in state.transformed_ddl if d.object_type == ty]\<close>, as positions\<close>
  "indices_of_type ty ddls = filter (\<lambda>i. object_type (ddls ! i) = ty) [0..<length ddls]"

definition priority_order :: "string list" where
  "priority_order =
     [''actor'', ''category'', ''country'', ''language'', ''film_text'',
      ''city'',
      ''address'', ''film'',
      ''customer'', ''staff'', ''store'', ''film_actor'', ''film_category'', ''inventory'',
      ''rental'',
      ''payment'']"

definition get_priority :: "string \<Rightarrow> nat" where
  "get_priority n = (if n \<in> set priority_order then index_of priority_order n else 999)"

definition simple_dependency_sort :: "TransformedDDL list \<Rightarrow> nat list \<Rightarrow> nat list" where
  \<comment> \<open>\<open>sorted(tables, key=get_priority)\<close>; \<open>sort_key\<close> is stable, as Python's sort is\<close>
  "simple_dependency_sort ddls tables = sort_key (\<lambda>i. get_priority (object_name (ddls ! i))) tables"

fun ddl_by_name_of :: "TransformedDDL list \<Rightarrow> nat list \<Rightarrow> nat dict \<Rightarrow> nat dict" where
  "ddl_by_name_of ddls [] d = d"
| "ddl_by_name_of ddls (i # is) d = ddl_by_name_of ddls is (AList.update (object_name (ddls ! i)) i d)"

definition split_once :: "string \<Rightarrow> string \<times> string" where
  \<comment> \<open>\<open>obj_id.split(":", 1)\<close> for an \<open>obj_id\<close> that contains a colon\<close>
  "split_once s = (takeWhile (\<lambda>c. c \<noteq> CHR '':'') s, tl (dropWhile (\<lambda>c. c \<noteq> CHR '':'') s))"

fun pick_in_order :: "string list \<Rightarrow> nat dict \<times> nat list \<Rightarrow> nat dict \<times> nat list" where
  "pick_in_order [] s = s"
| "pick_in_order (obj_id # ids) s =
     (case s of (ddl_by_name, ordered) \<Rightarrow>
        pick_in_order ids
          (if CHR '':'' \<in> set obj_id then
             (case split_once obj_id of (obj_type, obj_name) \<Rightarrow>
                (case map_of ddl_by_name obj_name of
                   Some i \<Rightarrow>
                     if obj_type = ''table'' then (AList.delete obj_name ddl_by_name, ordered @ [i])
                     else (ddl_by_name, ordered)
                 | None \<Rightarrow> (ddl_by_name, ordered)))
           else (ddl_by_name, ordered)))"

definition sort_by_dependency :: "TransformedDDL list \<Rightarrow> nat list \<Rightarrow> string list \<Rightarrow> nat list" where
  "sort_by_dependency ddls tables dependency_order =
     (if dependency_order = [] then simple_dependency_sort ddls tables
      else (case pick_in_order dependency_order (ddl_by_name_of ddls tables [], []) of
              (ddl_by_name, ordered) \<Rightarrow> ordered @ map snd ddl_by_name))"

definition SandboxAgent_run ::
  "'db executor \<Rightarrow> ('db \<Rightarrow> 'db) \<Rightarrow> (string \<Rightarrow> string \<Rightarrow> string) \<Rightarrow> (string \<Rightarrow> string) \<Rightarrow>
   'db world \<times> MigrationState \<Rightarrow> 'db world \<times> MigrationState" where
  "SandboxAgent_run exec reset attempt_fix fix_view_schema_references s =
     (case s of ((db, log), state) \<Rightarrow>
      (let w0 = (reset db, log);
           dependency_order =
             (case dependency_graph state of None \<Rightarrow> [] | Some g \<Rightarrow> migration_order g);
           ddls = transformed_ddl state;
           tables = indices_of_type ''table'' ddls;
           indexes = indices_of_type ''index'' ddls;
           views = indices_of_type ''view'' ddls;
           deferred_fks = indices_of_type ''constraint'' ddls;
           ordered_tables = sort_by_dependency ddls tables dependency_order;
           s1 = fold (execute_and_record exec attempt_fix) ordered_tables (w0, ddls, []);
           s2 = fold (execute_and_record exec attempt_fix) indexes s1;
           s3 = fold (execute_and_record exec attempt_fix) deferred_fks s2;
           s4 = fold (execute_view exec attempt_fix fix_view_schema_references) views s3
       in case s4 of (w4, ddls4, results4) \<Rightarrow>
          (case fold (execute_procedure exec) [0..<length (converted_procedures state)]
                  (w4, converted_procedures state, results4) of
             (w5, procs5, sandbox_results5) \<Rightarrow>
               (w5, state\<lparr>transformed_ddl := ddls4, converted_procedures := procs5,
                          sandbox_results := sandbox_results5,
                          current_phase := SANDBOX_TESTING\<rparr>))))"

definition should_continue_after_sandbox :: "MigrationState \<Rightarrow> string" where
  "should_continue_after_sandbox state =
     (let retry_count = sandbox_retry_count state;
          max_retries = 5;
          failures = filter (\<lambda>r. \<not> executed r) (sandbox_results state)
      in if failures \<noteq> [] \<and> retry_count < max_retries then ''error_fixer'' else ''validation'')"


section \<open>Error fixer (\<open>src/agents/error_fixer_agent.py\<close>)\<close>

text \<open>
  The language model is outside the program: \<open>invoke_llm\<close> maps the repair cycle, the
  failed result and the failing statement to the reply, or to \<open>None\<close> when the call
  raises (the exception is caught and the object is left unchanged).
\<close>

definition clean_sql :: "string \<Rightarrow> string" where
  \<comment> \<open>\<open>ErrorFixerAgent._clean_sql\<close>\<close>
  "clean_sql sql0 =
     (let sql1 = py_strip sql0;
          sql2 = (if py_startswith sql1 ''```sql'' then drop 6 sql1
                  else if py_startswith sql1 ''```'' then drop 3 sql1
                  else sql1);
          sql3 = (if py_endswith sql2 ''```'' then take (length sql2 - 3) sql2 else sql2);
          sql4 = py_strip sql3
      in if sql4 \<noteq> [] \<and> \<not> py_endswith sql4 '';'' then sql4 @ '';'' else sql4)"

fun find_index_of :: "('a \<Rightarrow> bool) \<Rightarrow> 'a list \<Rightarrow> nat option" where
  "find_index_of P [] = None"
| "find_index_of P (x # xs) =
     (if P x then Some 0 else map_option Suc (find_index_of P xs))"

datatype fix_target = DdlAt nat | ProcAt nat | NoObject

type_synonym llm = "nat \<Rightarrow> SandboxResult \<Rightarrow> string \<Rightarrow> string option"

definition fix_error_with_context ::
  "llm \<Rightarrow> SandboxResult \<Rightarrow> MigrationState \<Rightarrow> MigrationState \<times> bool" where
  "fix_error_with_context invoke_llm result state =
     (let (original_ddl, ddl_obj) =
            (case find_index_of (\<lambda>d. object_name d = result_object_name result)
                    (transformed_ddl state) of
               Some i \<Rightarrow> (target_ddl (transformed_ddl state ! i), DdlAt i)
             | None \<Rightarrow> ([], NoObject));
          (original_ddl, ddl_obj) =
            (if original_ddl = [] then
               (case find_index_of (\<lambda>p. proc_name p = result_object_name result)
                       (converted_procedures state) of
                  Some j \<Rightarrow> (target_code (converted_procedures state ! j), ProcAt j)
                | None \<Rightarrow> (original_ddl, ddl_obj))
             else (original_ddl, ddl_obj))
      in if original_ddl = [] then (state, False)
         else
           (case invoke_llm (nat (sandbox_retry_count state)) result original_ddl of
              None \<Rightarrow> (state, False)
            | Some response \<Rightarrow>
                (let fixed_ddl = clean_sql response in
                 if fixed_ddl \<noteq> original_ddl then
                   (case ddl_obj of
                      DdlAt i \<Rightarrow>
                        (state\<lparr>transformed_ddl :=
                                 (transformed_ddl state)
                                   [i := (transformed_ddl state ! i)\<lparr>target_ddl := fixed_ddl\<rparr>]\<rparr>,
                         True)
                    | ProcAt j \<Rightarrow>
                        (state\<lparr>converted_procedures :=
                                 (converted_procedures state)
                                   [j := (converted_procedures state ! j)\<lparr>target_code := fixed_ddl\<rparr>]\<rparr>,
                         True)
                    | NoObject \<Rightarrow> (state, True))
                 else (state, False))))"

fun fix_all :: "llm \<Rightarrow> SandboxResult list \<Rightarrow> MigrationState \<times> nat \<Rightarrow> MigrationState \<times> nat" where
  "fix_all invoke_llm [] s = s"
| "fix_all invoke_llm (result # rs) s =
     (case s of (state, fixes_applied) \<Rightarrow>
        (case fix_error_with_context invoke_llm result state of
           (state', success) \<Rightarrow>
             fix_all invoke_llm rs (state', if success then fixes_applied + 1 else fixes_applied)))"

definition ErrorFixerAgent_run :: "llm \<Rightarrow> MigrationState \<Rightarrow> MigrationState" where
  "ErrorFixerAgent_run invoke_llm state0 =
     (let state = state0\<lparr>sandbox_retry_count := sandbox_retry_count state0 + 1\<rparr>;
          state = state\<lparr>current_retry_count := sandbox_retry_count state\<rparr>;
          failed_results = filter (\<lambda>r. \<not> executed r) (sandbox_results state)
      in if failed_results = [] then state
         else (case fix_all invoke_llm failed_results (state, 0) of
                 (state', fixes_applied) \<Rightarrow> state'\<lparr>current_phase := SCHEMA_TRANSFORMATION\<rparr>))"

section \<open>The sandbox-repair loop (\<open>src/graph/workflow.py\<close>)\<close>

definition retries_left :: "MigrationState \<Rightarrow> nat" where
  "retries_left state = nat (5 - sandbox_retry_count state)"

lemma SandboxAgent_run_retry_count:
  "sandbox_retry_count (snd (SandboxAgent_run exec reset attempt_fix fix_view s)) =
   sandbox_retry_count (snd s)"
  by (simp add: SandboxAgent_run_def Let_def split: prod.splits)

lemma fix_error_with_context_retry_count:
  "sandbox_retry_count (fst (fix_error_with_context invoke_llm r st)) = sandbox_retry_count st"
  by (simp add: fix_error_with_context_def Let_def split: prod.splits option.splits fix_target.splits)

lemma fix_all_retry_count:
  "sandbox_retry_count (fst (fix_all invoke_llm rs (st, n))) = sandbox_retry_count st"
proof (induction rs arbitrary: st n)
  case Nil
  then show ?case by simp
next
  case (Cons r rs)
  obtain st' ok where f: "fix_error_with_context invoke_llm r st = (st', ok)"
    by (cases "fix_error_with_context invoke_llm r st")
  then have "sandbox_retry_count st' = sandbox_retry_count st"
    using fix_error_with_context_retry_count[of invoke_llm r st] by simp
  then show ?case
    using f Cons.IH by simp
qed

lemma ErrorFixerAgent_run_retry_count:
  "sandbox_retry_count (ErrorFixerAgent_run invoke_llm st) = sandbox_retry_count st + 1"
proof -
  let ?st = "st\<lparr>sandbox_retry_count := sandbox_retry_count st + 1,
                 current_retry_count := sandbox_retry_count st + 1\<rparr>"
  let ?f = "filter (\<lambda>r. \<not> executed r) (sandbox_results st)"
  have "sandbox_retry_count (fst (fix_all invoke_llm ?f (?st, 0))) = sandbox_retry_count st + 1"
    using fix_all_retry_count[of invoke_llm ?f ?st 0] by simp
  then show ?thesis
    by (auto simp: ErrorFixerAgent_run_def Let_def split: prod.splits)
qed

text \<open>
  The cycle of the workflow graph: \<open>sandbox\<close>, then the conditional edge
  \<open>should_continue_after_sandbox\<close>, then \<open>error_fixer\<close> and back to \<open>sandbox\<close>. The
  function returns the number of repair cycles and the state handed to validation.
\<close>

function sandbox_repair_loop ::
  "'db executor \<Rightarrow> ('db \<Rightarrow> 'db) \<Rightarrow> (string \<Rightarrow> string \<Rightarrow> string) \<Rightarrow> (string \<Rightarrow> string) \<Rightarrow> llm \<Rightarrow>
   'db world \<times> MigrationState \<Rightarrow> nat \<times> 'db world \<times> MigrationState" where
  "sandbox_repair_loop exec reset attempt_fix fix_view invoke_llm s =
     (let s1 = SandboxAgent_run exec reset attempt_fix fix_view s in
      if should_continue_after_sandbox (snd s1) = ''error_fixer'' then
        (case sandbox_repair_loop exec reset attempt_fix fix_view invoke_llm
                (fst s1, ErrorFixerAgent_run invoke_llm (snd s1)) of
           (cycles, s') \<Rightarrow> (Suc cycles, s'))
      else (0, s1))"
  by pat_completeness auto
termination
proof (relation "measure (\<lambda>(exec, reset, attempt_fix, fix_view, invoke_llm, s). retries_left (snd s))")
  show "wf (measure (\<lambda>(exec, reset, attempt_fix, fix_view, invoke_llm, s). retries_left (snd s)))"
    by simp
next
  fix exec :: "'db executor" and reset attempt_fix fix_view invoke_llm
    and s :: "'db world \<times> MigrationState" and s1
  assume s1: "s1 = SandboxAgent_run exec reset attempt_fix fix_view s"
     and c: "should_continue_after_sandbox (snd s1) = ''error_fixer''"
  have "sandbox_retry_count (snd s1) = sandbox_retry_count (snd s)"
    unfolding s1 by (rule SandboxAgent_run_retry_count)
  moreover have "sandbox_retry_count (snd s1) < 5"
    using c by (simp add: should_continue_after_sandbox_def Let_def split: if_splits)
  ultimately show "((exec, reset, attempt_fix, fix_view, invoke_llm, fst s1,
                     ErrorFixerAgent_run invoke_llm (snd s1)),
                    (exec, reset, attempt_fix, fix_view, invoke_llm, s))
      \<in> measure (\<lambda>(exec, reset, attempt_fix, fix_view, invoke_llm, s). retries_left (snd s))"
    by (simp add: retries_left_def ErrorFixerAgent_run_retry_count)
qed

declare sandbox_repair_loop.simps [simp del]

definition always_fails :: "unit executor" where
  "always_fails sql db = (ExecFailed ''relation does not exist'', db)"

definition silent_llm :: llm where
  "silent_llm cycle result original_ddl = None"

definition one_table_state :: MigrationState where
  "one_table_state =
     \<lparr>current_phase = LOGIC_CONVERSION, dependency_graph = None,
      transformed_ddl =
        [\<lparr>object_name = ''city'', object_type = ''table'', source_ddl = ''city'',
          target_ddl = ''CREATE TABLE city (id INT);'', status = PENDING\<rparr>],
      converted_procedures = [], sandbox_results = [],
      current_retry_count = 0, sandbox_retry_count = 0\<rparr>"

section \<open>Execution order of a sandbox pass\<close>








definition city_call :: sandbox_call where
  "city_call = ExecDDL ''table'' ''city'' ''CREATE TABLE city (id INT);''"

definition one_table_final :: MigrationState where
  "one_table_final =
     \<lparr>current_phase = SANDBOX_TESTING, dependency_graph = None,
      transformed_ddl =
        [\<lparr>object_name = ''city'', object_type = ''table'', source_ddl = ''city'',
          target_ddl = ''CREATE TABLE city (id INT);'', status = FAILED\<rparr>],
      converted_procedures = [],
      sandbox_results =
        [\<lparr>result_object_name = ''city'', result_object_type = ''table'', executed = False,
          errors = [''relation does not exist''], warnings = [], retry_count = 0\<rparr>],
      current_retry_count = 5, sandbox_retry_count = 5\<rparr>"

section \<open>Two-pass DDL generation (\<open>src/agents/schema_agent.py\<close>)\<close>

definition clean_sql_output :: "string \<Rightarrow> string" where
  \<comment> \<open>\<open>SchemaAgent._clean_sql_output\<close>\<close>
  "clean_sql_output sql0 =
     (let sql1 = py_strip sql0;
          sql2 = (if py_startswith sql1 ''```sql'' then drop 6 sql1
                  else if py_startswith sql1 ''```'' then drop 3 sql1
                  else sql1);
          sql3 = (if py_endswith sql2 ''```'' then take (length sql2 - 3) sql2 else sql2);
          sql4 = py_strip sql3
      in if \<not> py_endswith sql4 '';'' then sql4 @ '';'' else sql4)"

definition pass1_table_ddl :: "(string \<Rightarrow> string \<Rightarrow> string) \<Rightarrow> string \<Rightarrow> string \<Rightarrow> string" where
  \<comment> \<open>the two lines of \<open>SchemaAgent.run\<close> that produce a table's \<open>target_ddl\<close>; the language
      model \<open>llm_convert_table\<close> is outside the program\<close>
  "pass1_table_ddl llm_convert_table tname metadata_context =
     clean_sql_output (llm_convert_table tname metadata_context)"

text \<open>Blueprints (\<open>src/agents/blueprint_agent.py\<close>): the keys the DDL passes read.\<close>

record BlueprintFK =
  bfk_name :: "string option"
  bfk_columns :: "string list"
  references_table :: string
  references_columns :: "string list"
  is_deferred :: bool

record Blueprint =
  bp_table_name :: string
  bp_columns :: "Column list"
  bp_schema_columns :: "Column list"
  bp_indexes :: "Index list"
  bp_outgoing :: "BlueprintFK list"
  bp_deferred :: "BlueprintFK list"

definition fk_data :: "(string \<times> string) set \<Rightarrow> string \<Rightarrow> ForeignKey \<Rightarrow> BlueprintFK" where
  "fk_data circular_pairs tname fk =
     \<lparr>bfk_name = fk_name fk, bfk_columns = fk_columns fk,
      references_table = referred_table fk, references_columns = referred_columns fk,
      is_deferred = is_circular_fk circular_pairs tname (referred_table fk)\<rparr>"

fun collect_fks ::
  "(string \<times> string) set \<Rightarrow> string \<Rightarrow> ForeignKey list \<Rightarrow>
   BlueprintFK list \<times> BlueprintFK list \<Rightarrow> BlueprintFK list \<times> BlueprintFK list" where
  "collect_fks circular_pairs tname [] s = s"
| "collect_fks circular_pairs tname (fk # fks) s =
     (case s of (outgoing_fks, deferred_fks) \<Rightarrow>
        (let d = fk_data circular_pairs tname fk in
         collect_fks circular_pairs tname fks
           (outgoing_fks @ [d], if is_deferred d then deferred_fks @ [d] else deferred_fks)))"

definition create_table_blueprint :: "(string \<times> string) set \<Rightarrow> TableMetadata \<Rightarrow> Blueprint" where
  \<comment> \<open>\<open>_create_table_blueprint\<close>. The blueprint has no top-level key \<open>columns\<close> (the columns
      are under \<open>schema\<close>), so \<open>blueprint.get("columns", [])\<close> is the empty list.\<close>
  "create_table_blueprint circular_pairs t =
     (case collect_fks circular_pairs (table_name t) (foreign_keys t) ([], []) of
        (outgoing_fks, deferred_fks) \<Rightarrow>
          \<lparr>bp_table_name = table_name t,
           bp_columns = [],
           bp_schema_columns = columns t,
           bp_indexes = map (\<lambda>idx. \<lparr>idx_name = idx_name idx, idx_columns = idx_columns idx,
                                       idx_unique = idx_unique idx\<rparr>) (indexes t),
           bp_outgoing = outgoing_fks,
           bp_deferred = deferred_fks\<rparr>)"

definition dq :: string where
  \<comment> \<open>the double-quote character\<close>
  "dq = [CHR 0x22]"

definition quoted :: "string \<Rightarrow> string" where
  "quoted c = dq @ c @ dq"

fun py_join :: "string \<Rightarrow> string list \<Rightarrow> string" where
  "py_join sep [] = []"
| "py_join sep [x] = x"
| "py_join sep (x # y # ys) = x @ sep @ py_join sep (y # ys)"

definition str_of_optional :: "string option \<Rightarrow> string" where
  \<comment> \<open>how an f-string renders a value that may be \<open>None\<close>\<close>
  "str_of_optional v = (case v of None \<Rightarrow> ''None'' | Some s \<Rightarrow> s)"

definition alter_stmt :: "string \<Rightarrow> BlueprintFK \<Rightarrow> string" where
  "alter_stmt tname fk =
     ''ALTER TABLE '' @ quoted tname @ '' ADD CONSTRAINT '' @ quoted (str_of_optional (bfk_name fk))
       @ '' '' @ [CHR 0x0A] @ ''    FOREIGN KEY ('' @ py_join '', '' (map quoted (bfk_columns fk))
       @ '') REFERENCES '' @ quoted (references_table fk) @ '' (''
       @ py_join '', '' (map quoted (references_columns fk)) @ '');''"

fun fk_statements :: "string \<Rightarrow> BlueprintFK list \<Rightarrow> string list \<Rightarrow> string list" where
  \<comment> \<open>the loop over \<open>outgoing\<close>; an entry with no columns, no referenced table or no
      referenced columns is skipped\<close>
  "fk_statements tname [] all_fk_statements = all_fk_statements"
| "fk_statements tname (fk # fks) all_fk_statements =
     fk_statements tname fks
       (if bfk_columns fk = [] \<or> references_table fk = [] \<or> references_columns fk = []
        then all_fk_statements
        else all_fk_statements @ [alter_stmt tname fk])"

fun generate_deferred_fks_loop :: "Blueprint list \<Rightarrow> string list \<Rightarrow> string list" where
  "generate_deferred_fks_loop [] all_fk_statements = all_fk_statements"
| "generate_deferred_fks_loop (bp # bps) all_fk_statements =
     generate_deferred_fks_loop bps (fk_statements (bp_table_name bp) (bp_outgoing bp) all_fk_statements)"

definition generate_deferred_fks :: "Blueprint list \<Rightarrow> string list" where
  \<comment> \<open>\<open>_generate_deferred_fks\<close> on the blueprint files, in the order the directory scan
      yields them\<close>
  "generate_deferred_fks blueprint_files = generate_deferred_fks_loop blueprint_files []"

function py_replace :: "string \<Rightarrow> string \<Rightarrow> string \<Rightarrow> string" where
  "py_replace old new [] = (if old = [] then new else [])"
| "py_replace old new (c # cs) =
     (if old = [] then new @ c # py_replace old new cs
      else if py_startswith (c # cs) old then new @ py_replace old new (drop (length old) (c # cs))
      else c # py_replace old new cs)"
  by pat_completeness auto
termination
  by (relation "measure (\<lambda>(old, new, s). length s)") auto

definition target_index_name :: "string \<Rightarrow> string \<Rightarrow> string" where
  \<comment> \<open>the renaming in \<open>_generate_indexes\<close>\<close>
  "target_index_name tname idx_name0 =
     (if \<not> py_startswith idx_name0 (''idx_'' @ tname) then
        (if py_startswith idx_name0 ''idx_fk_'' \<or> py_startswith idx_name0 ''idx_'' then
           (let col_part = py_replace ''idx_'' [] (py_replace ''idx_fk_'' [] idx_name0)
            in ''idx_'' @ tname @ ''_'' @ col_part)
         else idx_name0)
      else idx_name0)"

definition needs_gist :: "Column list \<Rightarrow> string list \<Rightarrow> bool" where
  "needs_gist cols idx_cols =
     (let columns_info = map_of (rev (map (\<lambda>c. (col_name c, c)) cols)) in
      list_ex (\<lambda>col. py_upper (case columns_info col of None \<Rightarrow> [] | Some c \<Rightarrow> col_type c)
                       \<in> set [''GEOMETRY'', ''POINT'', ''NULL'']) idx_cols)"

definition index_stmt :: "Blueprint \<Rightarrow> string \<Rightarrow> Index \<Rightarrow> string" where
  "index_stmt bp iname idx =
     (let unique_str = (if idx_unique idx then ''UNIQUE '' else []);
          columns_sql = py_join '', '' (map quoted (idx_columns idx))
      in if needs_gist (bp_columns bp) (idx_columns idx)
         then ''CREATE '' @ unique_str @ ''INDEX '' @ quoted iname @ '' ON ''
              @ quoted (bp_table_name bp) @ '' USING GIST ('' @ columns_sql @ '');''
         else ''CREATE '' @ unique_str @ ''INDEX '' @ quoted iname @ '' ON ''
              @ quoted (bp_table_name bp) @ '' ('' @ columns_sql @ '');'')"

definition idx_skipped :: "Index \<Rightarrow> bool" where
  \<comment> \<open>\<open>not idx_name or not idx_columns\<close>\<close>
  "idx_skipped idx = (idx_name idx = None \<or> idx_name idx = Some [] \<or> idx_columns idx = [])"

fun index_statements :: "Blueprint \<Rightarrow> Index list \<Rightarrow> string list \<Rightarrow> string list" where
  "index_statements bp [] all_index_statements = all_index_statements"
| "index_statements bp (idx # idxs) all_index_statements =
     index_statements bp idxs
       (if idx_skipped idx then all_index_statements
        else all_index_statements
             @ [index_stmt bp (target_index_name (bp_table_name bp) (the (idx_name idx))) idx])"

fun generate_indexes_loop :: "Blueprint list \<Rightarrow> string list \<Rightarrow> string list" where
  "generate_indexes_loop [] all_index_statements = all_index_statements"
| "generate_indexes_loop (bp # bps) all_index_statements =
     generate_indexes_loop bps (index_statements bp (bp_indexes bp) all_index_statements)"

definition generate_indexes :: "Blueprint list \<Rightarrow> string list" where
  "generate_indexes blueprint_files = generate_indexes_loop blueprint_files []"

definition rental_table :: TableMetadata where
  "rental_table =
     mk_table ''rental''
       [\<lparr>idx_name = Some ''rental_date'', idx_columns = [''rental_date'', ''inventory_id''],
         idx_unique = True\<rparr>,
        \<lparr>idx_name = Some ''idx_fk_inventory_id'', idx_columns = [''inventory_id''],
         idx_unique = False\<rparr>]
       [mk_fk ''fk_rental_inventory'' [''inventory_id''] ''inventory'' [''inventory_id''],
        mk_fk ''fk_rental_broken'' [] ''staff'' [''staff_id'']]"

section \<open>Moving the rows (\<open>src/agents/data_migration_agent.py\<close>, \<open>src/tools/data_migrator.py\<close>)\<close>

text \<open>
  The statements a table migration sends to the destination. The destination database is
  outside the program: it is an arbitrary function from a statement and a database to an
  outcome and a new database, and every statement sent is appended to a log. A source table
  is the list of its rows, which does not change while it is read; \<open>LIMIT l OFFSET o\<close> reads
  \<open>take l (drop o rows)\<close>.
\<close>

datatype 'r target_stmt =
    DeleteFrom string
  | InsertInto string "string list" "'r list"

type_synonym ('r, 'db) target_executor = "'r target_stmt \<Rightarrow> 'db \<Rightarrow> exec_result \<times> 'db"

type_synonym ('r, 'db) target_world = "'db \<times> 'r target_stmt list"

definition target_execute ::
  "('r, 'db) target_executor \<Rightarrow> 'r target_stmt \<Rightarrow> ('r, 'db) target_world
   \<Rightarrow> exec_result \<times> ('r, 'db) target_world" where
  \<comment> \<open>\<open>conn.execute(text(sql), ...)\<close> followed by \<open>conn.commit()\<close>\<close>
  "target_execute exec stmt w =
     (case w of (db, sent) \<Rightarrow>
        (case exec stmt db of (r, db') \<Rightarrow> (r, (db', sent @ [stmt]))))"

definition fetch_batch :: "'r list \<Rightarrow> nat \<Rightarrow> nat \<Rightarrow> 'r list" where
  \<comment> \<open>\<open>SELECT \<dots> LIMIT :limit OFFSET :offset\<close> on the source table\<close>
  "fetch_batch source_rows limit offset = take limit (drop offset source_rows)"

record MigrateResult =
  mr_success :: bool
  rows_migrated :: nat
  mr_error :: "string option"

function insert_batches ::
  "('r, 'db) target_executor \<Rightarrow> ('r \<Rightarrow> 'r) \<Rightarrow> string \<Rightarrow> string list \<Rightarrow> 'r list \<Rightarrow> nat
   \<Rightarrow> nat \<Rightarrow> nat \<Rightarrow> ('r, 'db) target_world \<Rightarrow> (string + nat) \<times> ('r, 'db) target_world" where
  \<comment> \<open>the \<open>while True\<close> loop of \<open>DataMigrationAgent._migrate_table\<close> with \<open>_insert_batch\<close>; an
      exception of the insert leaves the loop (\<open>Inl\<close>)\<close>
  "insert_batches exec transform tname cols source_rows batch_size offset total_rows w =
     (let rows = fetch_batch source_rows batch_size offset in
      if rows = [] then (Inr total_rows, w)
      else
        (case target_execute exec (InsertInto tname cols (map transform rows)) w of
           (ExecFailed e, w') \<Rightarrow> (Inl e, w')
         | (ExecOk, w') \<Rightarrow>
             insert_batches exec transform tname cols source_rows batch_size
               (offset + batch_size) (total_rows + length rows) w'))"
  by pat_completeness auto
termination
proof (relation "measure (\<lambda>(exec, transform, tname, cols, source_rows, batch_size, offset, total_rows, w).
                            length source_rows - offset)")
  show "wf (measure (\<lambda>(exec, transform, tname, cols, source_rows, batch_size, offset, total_rows, w).
                            length source_rows - offset))"
    by simp
next
  fix exec :: "('r, 'db) target_executor" and transform :: "'r \<Rightarrow> 'r" and tname cols
    and source_rows :: "'r list" and batch_size offset total_rows :: nat
    and w :: "('r, 'db) target_world" and rows x y
  assume "rows = fetch_batch source_rows batch_size offset" "rows \<noteq> []"
  then have "0 < batch_size" "offset < length source_rows"
    by (auto simp: fetch_batch_def intro: Nat.gr0I)
  then show "((exec, transform, tname, cols, source_rows, batch_size, offset + batch_size,
               total_rows + length rows, y),
              (exec, transform, tname, cols, source_rows, batch_size, offset, total_rows, w))
             \<in> measure (\<lambda>(exec, transform, tname, cols, source_rows, batch_size, offset, total_rows, w).
                            length source_rows - offset)"
    by simp
qed

declare insert_batches.simps [simp del]

definition DataMigrationAgent_migrate_table ::
  "('r, 'db) target_executor \<Rightarrow> ('r \<Rightarrow> 'r) \<Rightarrow> nat \<Rightarrow> string list \<Rightarrow> 'r list \<Rightarrow> string
   \<Rightarrow> ('r, 'db) target_world \<Rightarrow> MigrateResult \<times> ('r, 'db) target_world" where
  \<comment> \<open>\<open>DataMigrationAgent._migrate_table\<close>; \<open>cols\<close> are the column names and \<open>source_rows\<close> the
      rows that the source reports for the table\<close>
  "DataMigrationAgent_migrate_table exec transform batch_size cols source_rows tname w =
     (if cols = [] then
        (\<lparr>mr_success = False, rows_migrated = 0, mr_error = Some ''No columns found''\<rparr>, w)
      else
        (case target_execute exec (DeleteFrom tname) w of
           (ExecFailed e, w') \<Rightarrow>
             (\<lparr>mr_success = False, rows_migrated = 0, mr_error = Some e\<rparr>, w')
         | (ExecOk, w') \<Rightarrow>
             (case insert_batches exec transform tname cols source_rows batch_size 0 0 w' of
                (Inl e, w'') \<Rightarrow>
                  (\<lparr>mr_success = False, rows_migrated = 0, mr_error = Some e\<rparr>, w'')
              | (Inr total_rows, w'') \<Rightarrow>
                  (\<lparr>mr_success = True, rows_migrated = total_rows, mr_error = None\<rparr>, w''))))"

function stream_source_data :: "'r list \<Rightarrow> nat \<Rightarrow> nat \<Rightarrow> 'r list list" where
  \<comment> \<open>the generator \<open>DataMigrator.stream_source_data\<close>: the batches it yields\<close>
  "stream_source_data source_rows batch_size offset =
     (let rows = fetch_batch source_rows batch_size offset in
      if rows = [] then [] else rows # stream_source_data source_rows batch_size (offset + batch_size))"
  by pat_completeness auto
termination
proof (relation "measure (\<lambda>(source_rows, batch_size, offset). length source_rows - offset)")
  show "wf (measure (\<lambda>(source_rows, batch_size, offset). length source_rows - offset))"
    by simp
next
  fix source_rows :: "'r list" and batch_size offset :: nat and rows
  assume "rows = fetch_batch source_rows batch_size offset" "rows \<noteq> []"
  then have "0 < batch_size" "offset < length source_rows"
    by (auto simp: fetch_batch_def intro: Nat.gr0I)
  then show "((source_rows, batch_size, offset + batch_size), (source_rows, batch_size, offset))
             \<in> measure (\<lambda>(source_rows, batch_size, offset). length source_rows - offset)"
    by simp
qed

declare stream_source_data.simps [simp del]

definition bulk_insert ::
  "('r, 'db) target_executor \<Rightarrow> string \<Rightarrow> 'r list \<Rightarrow> string list \<Rightarrow> ('r, 'db) target_world
   \<Rightarrow> exec_result \<times> ('r, 'db) target_world" where
  \<comment> \<open>\<open>DataMigrator.bulk_insert\<close>; \<open>ExecOk\<close> is \<open>(True, None)\<close>, \<open>ExecFailed e\<close> is \<open>(False, e)\<close>\<close>
  "bulk_insert exec tname rows cols w =
     (if rows = [] then (ExecOk, w) else target_execute exec (InsertInto tname cols rows) w)"

record TableMigrationResult =
  tm_table_name :: string
  tm_rows_migrated :: nat
  tm_success :: bool
  tm_errors :: "(nat \<times> string) list"

fun migrate_batches ::
  "('r, 'db) target_executor \<Rightarrow> ('r \<Rightarrow> 'r) \<Rightarrow> string \<Rightarrow> string list \<Rightarrow> 'r list list \<Rightarrow> nat
   \<Rightarrow> nat \<times> (nat \<times> string) list \<Rightarrow> ('r, 'db) target_world
   \<Rightarrow> (nat \<times> (nat \<times> string) list) \<times> ('r, 'db) target_world" where
  \<comment> \<open>the \<open>for batch_num, batch in enumerate(\<dots>)\<close> loop of \<open>DataMigrator.migrate_table\<close>; a
      failed batch is recorded with its number and the loop goes on\<close>
  "migrate_batches exec transform_row tname column_names [] batch_num acc w = (acc, w)"
| "migrate_batches exec transform_row tname column_names (batch # batches) batch_num acc w =
     (case acc of (total_rows, errs) \<Rightarrow>
        (let transformed_rows = map transform_row batch in
         case bulk_insert exec tname transformed_rows column_names w of
           (ExecFailed e, w') \<Rightarrow>
             migrate_batches exec transform_row tname column_names batches (batch_num + 1)
               (total_rows, errs @ [(batch_num, e)]) w'
         | (ExecOk, w') \<Rightarrow>
             migrate_batches exec transform_row tname column_names batches (batch_num + 1)
               (total_rows + length transformed_rows, errs) w'))"

definition DataMigrator_migrate_table ::
  "('r, 'db) target_executor \<Rightarrow> ('r \<Rightarrow> 'r) \<Rightarrow> nat \<Rightarrow> string list \<Rightarrow> 'r list \<Rightarrow> string
   \<Rightarrow> ('r, 'db) target_world \<Rightarrow> TableMigrationResult \<times> ('r, 'db) target_world" where
  \<comment> \<open>\<open>DataMigrator.migrate_table\<close>\<close>
  "DataMigrator_migrate_table exec transform_row batch_size column_names source_rows tname w =
     (case migrate_batches exec transform_row tname column_names
             (stream_source_data source_rows batch_size 0) 0 (0, []) w of
        ((total_rows, errs), w') \<Rightarrow>
          (\<lparr>tm_table_name = tname, tm_rows_migrated = total_rows, tm_success = (errs = []),
            tm_errors = errs\<rparr>, w'))"

definition is_insert_into :: "string \<Rightarrow> 'r target_stmt \<Rightarrow> bool" where
  "is_insert_into tname stmt = (case stmt of InsertInto t cols rows \<Rightarrow> t = tname | DeleteFrom t \<Rightarrow> False)"

definition plain_target :: "('r, string \<Rightarrow> 'r list) target_executor" where
  \<comment> \<open>a destination that holds a list of rows per table and enforces no constraint (foreign
      keys are switched off for the migration): \<open>DELETE FROM t\<close> empties \<open>t\<close>, an insert appends\<close>
  "plain_target stmt db =
     (case stmt of
        DeleteFrom t \<Rightarrow> (ExecOk, db(t := []))
      | InsertInto t cols rows \<Rightarrow> (ExecOk, db(t := db t @ rows)))"

definition city_target :: "string \<Rightarrow> string list" where
  \<comment> \<open>a destination in which \<open>city\<close> and \<open>country\<close> already hold a row\<close>
  "city_target = (\<lambda>t. [])(''city'' := [''Kabul''], ''country'' := [''Afghanistan''])"

section \<open>Well-known-binary points (\<open>convert_wkb_to_point\<close> in \<open>src/agents/data_migration_agent.py\<close>)\<close>

text \<open>
  A Python float is an IEEE-754 binary64 value: plus or minus \<open>m \<times> 2\<^sup>e\<close> with \<open>m\<close> odd (or
  zero), an infinity, or a NaN. \<open>struct.unpack('<d', b)\<close> reads eight bytes, least significant
  first, as sign bit, eleven exponent bits and fifty-two fraction bits.
\<close>

type_synonym byte = "8 word"

datatype py_float = Finite bool int int | Infinity bool | NaN

datatype struct_error = StructError

function normalize_float :: "int \<Rightarrow> int \<Rightarrow> int \<times> int" where
  \<comment> \<open>\<open>m \<times> 2\<^sup>e\<close> with the factors two moved from \<open>m\<close> to the exponent\<close>
  "normalize_float m e = (if m = 0 then (0, 0) else if even m then normalize_float (m div 2) (e + 1) else (m, e))"
  by pat_completeness auto
termination
  by (relation "measure (\<lambda>(m, e). nat \<bar>m\<bar>)") auto

declare normalize_float.simps [simp del]

definition le_bytes_to_int :: "byte list \<Rightarrow> int" where
  "le_bytes_to_int bs = foldr (\<lambda>b acc. uint b + 256 * acc) bs 0"

definition decode_double :: "byte list \<Rightarrow> py_float" where
  "decode_double bs =
     (let n = le_bytes_to_int bs;
          sign = (n div 2 ^ 63 = 1);
          biased = (n div 2 ^ 52) mod 2048;
          fraction = n mod 2 ^ 52
      in if biased = 2047 then (if fraction = 0 then Infinity sign else NaN)
         else if biased = 0 then (case normalize_float fraction (- 1074) of (m, e) \<Rightarrow> Finite sign m e)
         else (case normalize_float (2 ^ 52 + fraction) (biased - 1075) of (m, e) \<Rightarrow> Finite sign m e))"

definition struct_unpack_d :: "byte list \<Rightarrow> struct_error + py_float" where
  \<comment> \<open>\<open>struct.unpack('<d', b)[0]\<close>; a buffer that is not eight bytes long raises\<close>
  "struct_unpack_d b = (if length b = 8 then Inr (decode_double b) else Inl StructError)"

definition py_slice :: "'a list \<Rightarrow> nat \<Rightarrow> nat \<Rightarrow> 'a list" where
  \<comment> \<open>\<open>s[i:j]\<close> for \<open>0 \<le> i \<le> j\<close>\<close>
  "py_slice s i j = take (j - i) (drop i s)"

definition convert_wkb_to_point :: "(py_float \<Rightarrow> string) \<Rightarrow> byte list option \<Rightarrow> string option" where
  \<comment> \<open>\<open>float_str\<close> is how an f-string writes a float; the \<open>except\<close> clause turns every error into
      \<open>None\<close>\<close>
  "convert_wkb_to_point float_str wkb_bytes =
     (case wkb_bytes of
        None \<Rightarrow> None
      | Some bs \<Rightarrow>
          if length bs < 21 then None
          else
            (case struct_unpack_d (py_slice bs 9 17) of
               Inl err \<Rightarrow> None
             | Inr x \<Rightarrow>
                 (case struct_unpack_d (py_slice bs 17 25) of
                    Inl err \<Rightarrow> None
                  | Inr y \<Rightarrow> Some (''('' @ float_str x @ '', '' @ float_str y @ '')''))))"

definition point_buffer :: "byte list" where
  \<comment> \<open>SRID 0, byte order 1, type 1, X = 12.5, Y = -3.25\<close>
  "point_buffer =
     [0, 0, 0, 0, 1, 1, 0, 0, 0,
      0, 0, 0, 0, 0, 0, 0x29, 0x40,
      0, 0, 0, 0, 0, 0, 0x0A, 0xC0]"

definition short_float_str :: "py_float \<Rightarrow> string" where
  \<comment> \<open>a formatter that is defined on the two floats of the 25-byte example\<close>
  "short_float_str f =
     (if f = Finite False 25 (- 1) then ''12.5''
      else if f = Finite True 13 (- 2) then ''-3.25''
      else ''nan'')"

section \<open>Verified properties\<close>

subsection \<open>Facts about the string helpers\<close>

lemma py_rstrip_keep:
  assumes "p \<noteq> []" "\<not> py_isspace (last p)"
  shows "py_rstrip (p @ r) = p @ py_rstrip r"
proof -
  have "dropWhile py_isspace (rev p) = rev p"
    using assms by (cases p rule: rev_cases) auto
  then show ?thesis
    by (simp add: py_rstrip_def dropWhile_append)
qed

lemma py_strip_keep:
  assumes "p \<noteq> []" "\<not> py_isspace (hd p)" "\<not> py_isspace (last p)"
  shows "py_strip (p @ r) = p @ py_rstrip r"
proof -
  have "py_lstrip (p @ r) = p @ r"
    using assms by (cases p) (auto simp: py_lstrip_def)
  then show ?thesis
    using assms by (simp add: py_strip_def py_rstrip_keep)
qed

lemmas py_string_defs =
  py_strip_def py_lstrip_def py_rstrip_def py_upper_def upper_char_def py_isspace_def
  py_startswith_def py_endswith_def

subsection \<open>The type mapping\<close>

lemma map_type_ENUM: "map_type (''ENUM'' @ args) = ''TEXT''"
proof -
  have up: "py_upper (''ENUM'' @ args) = ''ENUM'' @ py_upper args"
    by (simp add: py_upper_def upper_char_def)
  have u: "py_strip (py_upper (''ENUM'' @ args)) = ''ENUM'' @ py_rstrip (py_upper args)"
    by (simp only: up) (rule py_strip_keep; simp add: py_isspace_def)
  have b: "py_strip (takeWhile (\<lambda>c. c \<noteq> CHR ''('') (''ENUM'' @ x)) =
       ''ENUM'' @ py_rstrip (takeWhile (\<lambda>c. c \<noteq> CHR ''('') x)" for x
  proof -
    have "takeWhile (\<lambda>c. c \<noteq> CHR ''('') (''ENUM'' @ x) =
          ''ENUM'' @ takeWhile (\<lambda>c. c \<noteq> CHR ''('') x"
      by simp
    then show ?thesis
      by (simp only:) (rule py_strip_keep; simp add: py_isspace_def)
  qed
  have n: "map_of TYPE_MAPPINGS (''ENUM'' @ y) = None" for y
    by (simp add: TYPE_MAPPINGS_def)
  show ?thesis
    unfolding map_type_def Let_def u b n by (simp add: py_startswith_def)
qed

lemma map_type_SET: "map_type (''SET'' @ args) = ''TEXT[]''"
proof -
  have up: "py_upper (''SET'' @ args) = ''SET'' @ py_upper args"
    by (simp add: py_upper_def upper_char_def)
  have u: "py_strip (py_upper (''SET'' @ args)) = ''SET'' @ py_rstrip (py_upper args)"
    by (simp only: up) (rule py_strip_keep; simp add: py_isspace_def)
  have b: "py_strip (takeWhile (\<lambda>c. c \<noteq> CHR ''('') (''SET'' @ x)) =
       ''SET'' @ py_rstrip (takeWhile (\<lambda>c. c \<noteq> CHR ''('') x)" for x
  proof -
    have "takeWhile (\<lambda>c. c \<noteq> CHR ''('') (''SET'' @ x) =
          ''SET'' @ takeWhile (\<lambda>c. c \<noteq> CHR ''('') x"
      by simp
    then show ?thesis
      by (simp only:) (rule py_strip_keep; simp add: py_isspace_def)
  qed
  have n: "map_of TYPE_MAPPINGS (''SET'' @ y) = None" for y
    by (simp add: TYPE_MAPPINGS_def)
  show ?thesis
    unfolding map_type_def Let_def u b n by (simp add: py_startswith_def)
qed

lemma map_type_fixed:
  "map_type ''TINYINT'' = ''SMALLINT''"
  "map_type ''TINYINT(1)'' = ''BOOLEAN''"
  "map_type ''TINYBLOB'' = ''BYTEA''"
  "map_type ''BLOB'' = ''BYTEA''"
  "map_type ''MEDIUMBLOB'' = ''BYTEA''"
  "map_type ''LONGBLOB'' = ''BYTEA''"
  "map_type ''JSON'' = ''JSONB''"
  "map_type ''POINT'' = ''POINT''"
  "map_type ''GEOMETRY'' = ''GEOMETRY''"
  by (simp_all add: map_type_def TYPE_MAPPINGS_def py_string_defs)

text \<open>
  Claim C9, as stated: the spatial type GEOMETRY maps to the point type. It does not:
  \<open>TYPE_MAPPINGS\<close> sends GEOMETRY to GEOMETRY.
\<close>

theorem C9_geometry_counterexample: "map_type ''GEOMETRY'' \<noteq> ''POINT''"
  by (simp add: map_type_fixed)

text \<open>
  Claim C9, amended: TINYINT maps to SMALLINT, TINYINT(1) to BOOLEAN, each of TINYBLOB,
  BLOB, MEDIUMBLOB and LONGBLOB to BYTEA, JSON to JSONB, every type string that starts
  with ENUM to plain TEXT (no check constraint is part of the result), every type string
  that starts with SET to TEXT[], POINT to POINT, and GEOMETRY to GEOMETRY.
\<close>

theorem C9_map_type_table:
  "map_type ''TINYINT'' = ''SMALLINT'' \<and>
   map_type ''TINYINT(1)'' = ''BOOLEAN'' \<and>
   map_type ''TINYBLOB'' = ''BYTEA'' \<and>
   map_type ''BLOB'' = ''BYTEA'' \<and>
   map_type ''MEDIUMBLOB'' = ''BYTEA'' \<and>
   map_type ''LONGBLOB'' = ''BYTEA'' \<and>
   map_type ''JSON'' = ''JSONB'' \<and>
   map_type (''ENUM'' @ enum_args) = ''TEXT'' \<and>
   map_type (''SET'' @ set_args) = ''TEXT[]'' \<and>
   map_type ''POINT'' = ''POINT'' \<and>
   map_type ''GEOMETRY'' = ''GEOMETRY''"
  by (simp only: map_type_fixed map_type_ENUM map_type_SET simp_thms)

subsection \<open>Circular foreign-key detection\<close>

lemma add_referred_eq:
  "add_referred n fks refs = refs \<union> {r. r \<noteq> [] \<and> r \<noteq> n \<and> r \<in> referred_table ` set fks}"
  by (induction fks arbitrary: refs) auto

lemma build_fk_graph_keys:
  "fst ` set (build_fk_graph ts g) = fst ` set g \<union> table_name ` set ts"
  by (induction ts arbitrary: g) (auto simp: dom_update)

lemma build_fk_graph_distinct:
  "distinct (map fst g) \<Longrightarrow> distinct (map fst (build_fk_graph ts g))"
  by (induction ts arbitrary: g) (auto simp: distinct_update)

lemma build_fk_graph_lookup:
  "distinct (map table_name ts) \<Longrightarrow>
   map_of (build_fk_graph ts g) n =
     (case find (\<lambda>t. table_name t = n) ts of
        None \<Rightarrow> map_of g n
      | Some t \<Rightarrow> Some (add_referred n (foreign_keys t) {}))"
proof (induction ts arbitrary: g)
  case Nil
  then show ?case by simp
next
  case (Cons t ts)
  show ?case
  proof (cases "table_name t = n")
    case True
    then have "find (\<lambda>t. table_name t = n) ts = None"
      using Cons.prems by (auto simp: find_None_iff image_iff)
    then show ?thesis using Cons True by (simp add: update_conv')
  next
    case False
    then show ?thesis using Cons by (simp add: update_conv' split: option.splits)
  qed
qed

lemma fk_edge_iff:
  assumes "distinct (map table_name tables)"
  shows "fk_edge tables a b \<longleftrightarrow> fk_references tables a b \<and> b \<noteq> [] \<and> b \<noteq> a"
proof
  assume "fk_edge tables a b"
  then obtain t where t: "find (\<lambda>t. table_name t = a) tables = Some t"
      and b: "b \<in> add_referred a (foreign_keys t) {}"
    using assms by (auto simp: fk_edge_def build_fk_graph_lookup split: option.splits)
  from t have "t \<in> set tables" "table_name t = a"
    by (auto simp: find_Some_iff)
  with b show "fk_references tables a b \<and> b \<noteq> [] \<and> b \<noteq> a"
    by (auto simp: add_referred_eq fk_references_def)
next
  assume r: "fk_references tables a b \<and> b \<noteq> [] \<and> b \<noteq> a"
  then obtain t fk where t: "t \<in> set tables" "table_name t = a"
      and fk: "fk \<in> set (foreign_keys t)" "referred_table fk = b"
    by (auto simp: fk_references_def)
  obtain t' where t': "find (\<lambda>t. table_name t = a) tables = Some t'"
    using t by (cases "find (\<lambda>t. table_name t = a) tables") (auto simp: find_None_iff)
  then have "t' \<in> set tables" "table_name t' = a"
    by (auto simp: find_Some_iff)
  with t assms have "t' = t"
    by (auto simp: distinct_map dest: inj_onD)
  with t' fk r show "fk_edge tables a b"
    using assms by (auto simp: fk_edge_def build_fk_graph_lookup add_referred_eq)
qed

lemma detect_circular_fks_iff:
  "p \<in> detect_circular_fks tables \<longleftrightarrow>
     (\<exists>a b. p = sorted_pair a b \<and> fk_edge tables a b \<and> fk_edge tables b a)"
proof -
  have d: "distinct (map fst (build_fk_graph tables []))"
    by (rule build_fk_graph_distinct) simp
  have m: "(a, refs) \<in> set (build_fk_graph tables []) \<longleftrightarrow>
           map_of (build_fk_graph tables []) a = Some refs" for a refs
    using d by simp
  have f: "p \<in> circular_pairs_of (build_fk_graph tables []) (a, refs) \<longleftrightarrow>
           (\<exists>b. p = sorted_pair a b \<and> b \<in> refs \<and> fk_edge tables b a)" for a refs
    by (auto simp: circular_pairs_of_def fk_edge_def split: option.splits)
  have "p \<in> detect_circular_fks tables \<longleftrightarrow>
          (\<exists>a refs. (a, refs) \<in> set (build_fk_graph tables []) \<and>
              p \<in> circular_pairs_of (build_fk_graph tables []) (a, refs))"
    by (auto simp: detect_circular_fks_def Let_def)
  also have "\<dots> \<longleftrightarrow> (\<exists>a refs. map_of (build_fk_graph tables []) a = Some refs \<and>
              (\<exists>b. p = sorted_pair a b \<and> b \<in> refs \<and> fk_edge tables b a))"
    by (simp only: m f)
  also have "\<dots> \<longleftrightarrow> (\<exists>a b. p = sorted_pair a b \<and> fk_edge tables a b \<and> fk_edge tables b a)"
    unfolding fk_edge_def by blast
  finally show ?thesis .
qed

lemma sorted_pair_commute: "sorted_pair a b = sorted_pair b a"
  by (auto simp: sorted_pair_def)

lemma sorted_pair_eq_iff:
  "sorted_pair a b = sorted_pair c d \<longleftrightarrow> (a = c \<and> b = d) \<or> (a = d \<and> b = c)"
  by (auto simp: sorted_pair_def)

text \<open>
  Claim C7: in a schema whose table names are distinct and non-empty, the lookup
  \<open>is_circular_fk\<close> on the detected pairs holds for \<open>(a, b)\<close> exactly when \<open>a\<close> and \<open>b\<close> are
  different tables that reference each other by foreign key; every stored pair is in
  strictly ascending order (so an unordered pair is stored once); and the lookup is
  symmetric.
\<close>

theorem C7_circular_detection:
  assumes "distinct (map table_name tables)"
      and "\<forall>t \<in> set tables. table_name t \<noteq> []"
  shows "(is_circular_fk (detect_circular_fks tables) a b \<longleftrightarrow>
            a \<noteq> b \<and> fk_references tables a b \<and> fk_references tables b a)
       \<and> (\<forall>p \<in> detect_circular_fks tables. fst p < snd p)
       \<and> is_circular_fk (detect_circular_fks tables) a b =
           is_circular_fk (detect_circular_fks tables) b a"
proof (intro conjI)
  have ne: "fk_references tables x y \<Longrightarrow> x \<noteq> []" for x y
    using assms(2) by (auto simp: fk_references_def)
  show "is_circular_fk (detect_circular_fks tables) a b \<longleftrightarrow>
            a \<noteq> b \<and> fk_references tables a b \<and> fk_references tables b a"
  proof
    assume "is_circular_fk (detect_circular_fks tables) a b"
    then obtain x y where xy: "sorted_pair a b = sorted_pair x y"
        "fk_edge tables x y" "fk_edge tables y x"
      by (auto simp: is_circular_fk_def detect_circular_fks_iff)
    from xy(2,3) have "x \<noteq> y" "fk_references tables x y" "fk_references tables y x"
      by (simp_all add: fk_edge_iff[OF assms(1)])
    with xy(1) show "a \<noteq> b \<and> fk_references tables a b \<and> fk_references tables b a"
      by (auto simp: sorted_pair_eq_iff)
  next
    assume r: "a \<noteq> b \<and> fk_references tables a b \<and> fk_references tables b a"
    then have "a \<noteq> []" "b \<noteq> []"
      using ne by blast+
    with r have "fk_edge tables a b" "fk_edge tables b a"
      by (auto simp: fk_edge_iff[OF assms(1)])
    then show "is_circular_fk (detect_circular_fks tables) a b"
      unfolding is_circular_fk_def detect_circular_fks_iff by blast
  qed
  show "\<forall>p \<in> detect_circular_fks tables. fst p < snd p"
  proof
    fix p assume "p \<in> detect_circular_fks tables"
    then obtain x y where "p = sorted_pair x y" "fk_edge tables x y"
      by (auto simp: detect_circular_fks_iff)
    then have "p = sorted_pair x y" "y \<noteq> x"
      by (simp_all add: fk_edge_iff[OF assms(1)])
    then show "fst p < snd p"
      by (auto simp: sorted_pair_def)
  qed
  show "is_circular_fk (detect_circular_fks tables) a b =
           is_circular_fk (detect_circular_fks tables) b a"
    by (simp add: is_circular_fk_def sorted_pair_commute)
qed

theorem C7_witness:
  "distinct (map table_name store_staff_tables) \<and> [] \<notin> set (map table_name store_staff_tables)
   \<and> is_circular_fk (detect_circular_fks store_staff_tables) ''store'' ''staff''
   \<and> is_circular_fk (detect_circular_fks store_staff_tables) ''staff'' ''store''
   \<and> \<not> is_circular_fk (detect_circular_fks store_staff_tables) ''staff'' ''staff''
   \<and> (''staff'', ''store'') \<in> detect_circular_fks store_staff_tables"
proof -
  have d: "distinct (map table_name store_staff_tables)" by (simp add: store_staff_tables_def mk_table_def)
  have n: "\<forall>t \<in> set store_staff_tables. table_name t \<noteq> []" by (simp add: store_staff_tables_def mk_table_def)
  have r: "fk_references store_staff_tables ''store'' ''staff''" "fk_references store_staff_tables ''staff'' ''store''"
    by (simp_all add: fk_references_def store_staff_tables_def mk_table_def mk_fk_def)
  have m: "(''staff'', ''store'') \<in> detect_circular_fks store_staff_tables"
    by (simp add: detect_circular_fks_def circular_pairs_of_def store_staff_tables_def mk_table_def mk_fk_def sorted_pair_def)
  show ?thesis
    using C7_circular_detection[OF d n, of "''store''" "''staff''"]
          C7_circular_detection[OF d n, of "''staff''" "''staff''"] r d n m
    by auto
qed

subsection \<open>Topological sort\<close>

lemma index_of_less_iff: "index_of xs x < length xs \<longleftrightarrow> x \<in> set xs"
  by (induction xs) (auto simp: index_of_def)

lemma index_of_append_in: "x \<in> set xs \<Longrightarrow> index_of (xs @ ys) x = index_of xs x"
  by (induction xs) (auto simp: index_of_def)

lemma index_of_append_notin: "x \<notin> set xs \<Longrightarrow> index_of (xs @ ys) x = length xs + index_of ys x"
  by (induction xs) (auto simp: index_of_def)

lemma index_of_le: "index_of xs x \<le> length xs"
  by (simp add: index_of_def length_takeWhile_le)

lemma count_list_map_filter: "count_list (map f xs) a = length (filter (\<lambda>x. f x = a) xs)"
  by (induction xs) auto

lemma dict_get_update:
  "dict_get (AList.update k v d) a dflt = (if a = k then v else dict_get d a dflt)"
  by (simp add: dict_get_def update_conv')

lemma dict_keys_update_present:
  "k \<in> set (dict_keys d) \<Longrightarrow> dict_keys (AList.update k v d) = dict_keys d"
  by (simp add: dict_keys_def update_keys)

lemma map_of_present: "k \<in> set (dict_keys d) \<Longrightarrow> \<exists>v. map_of d k = Some v"
  by (cases "map_of d k") (auto simp: dict_keys_def map_of_eq_None_iff)

lemma map_of_dict_get: "map_of d k = Some v \<Longrightarrow> dict_get d k dflt = v"
  by (simp add: dict_get_def)

subsection \<open>Initial dictionaries\<close>

lemma init_graph_keys: "dict_keys (init_graph ns g) = key_order (map node_id ns) (dict_keys g)"
  by (induction ns arbitrary: g) (auto simp: dict_keys_def update_keys)

lemma init_in_degree_keys: "dict_keys (init_in_degree ns d) = key_order (map node_id ns) (dict_keys d)"
  by (induction ns arbitrary: d) (auto simp: dict_keys_def update_keys)

lemma init_graph_get: "dict_get g a [] = [] \<Longrightarrow> dict_get (init_graph ns g) a [] = []"
  by (induction ns arbitrary: g) (auto simp: dict_get_update)

lemma init_in_degree_get: "dict_get d a 0 = 0 \<Longrightarrow> dict_get (init_in_degree ns d) a 0 = 0"
  by (induction ns arbitrary: d) (auto simp: dict_get_update)

lemma key_order_set: "set (key_order ks acc) = set acc \<union> set ks"
  by (induction ks arbitrary: acc) auto

lemma key_order_distinct: "distinct acc \<Longrightarrow> distinct (key_order ks acc)"
  by (induction ks arbitrary: acc) auto

lemma key_order_distinct_eq:
  "distinct (acc @ ks) \<Longrightarrow> key_order ks acc = acc @ ks"
  by (induction ks arbitrary: acc) auto

subsection \<open>Edge insertion\<close>

lemma add_edge_ok:
  assumes "dict_keys g = K" "dict_keys d = K"
  shows "\<exists>g' d'. add_edge e (g, d) = Inr (g', d') \<and> dict_keys g' = K \<and> dict_keys d' = K \<and>
     (\<forall>b. dict_get g' b [] = dict_get g b [] @ map from_id (filter (\<lambda>e. to_id e = b) (valid_edges K [e]))) \<and>
     (\<forall>a. dict_get d' a 0 = dict_get d a 0 + int (length (filter (\<lambda>e. from_id e = a) (valid_edges K [e]))))"
proof (cases "from_id e \<in> set K \<and> to_id e \<in> set K")
  case False
  then show ?thesis
    using assms by (auto simp: add_edge_def valid_edges_def)
next
  case True
  obtain ds where ds: "map_of g (to_id e) = Some ds"
    using True assms map_of_present[of "to_id e" g] by auto
  obtain k where k: "map_of d (from_id e) = Some k"
    using True assms map_of_present[of "from_id e" d] by auto
  have 1: "add_edge e (g, d) =
      Inr (AList.update (to_id e) (ds @ [from_id e]) g, AList.update (from_id e) (k + 1) d)"
    using True assms ds k by (simp add: add_edge_def)
  show ?thesis
    unfolding 1
    using True assms map_of_dict_get[OF ds] map_of_dict_get[OF k]
    by (auto simp: dict_keys_update_present dict_get_update valid_edges_def)
qed

lemma valid_edges_Cons: "valid_edges K (e # es) = valid_edges K [e] @ valid_edges K es"
  by (simp add: valid_edges_def)

lemma add_edges_ok:
  assumes "dict_keys g = K" "dict_keys d = K"
  shows "\<exists>g' d'. add_edges es (g, d) = Inr (g', d') \<and> dict_keys g' = K \<and> dict_keys d' = K \<and>
     (\<forall>b. dict_get g' b [] = dict_get g b [] @ map from_id (filter (\<lambda>e. to_id e = b) (valid_edges K es))) \<and>
     (\<forall>a. dict_get d' a 0 = dict_get d a 0 + int (length (filter (\<lambda>e. from_id e = a) (valid_edges K es))))"
  using assms
proof (induction es arbitrary: g d)
  case Nil
  then show ?case by (simp add: valid_edges_def)
next
  case (Cons e es)
  from add_edge_ok[OF Cons.prems, of e] obtain g1 d1 where
    1: "add_edge e (g, d) = Inr (g1, d1)" "dict_keys g1 = K" "dict_keys d1 = K"
    and g1: "\<And>b. dict_get g1 b [] = dict_get g b [] @ map from_id (filter (\<lambda>e. to_id e = b) (valid_edges K [e]))"
    and d1: "\<And>a. dict_get d1 a 0 = dict_get d a 0 + int (length (filter (\<lambda>e. from_id e = a) (valid_edges K [e])))"
    by blast
  from Cons.IH[OF 1(2,3)] obtain g' d' where
    2: "add_edges es (g1, d1) = Inr (g', d')" "dict_keys g' = K" "dict_keys d' = K"
    and g2: "\<And>b. dict_get g' b [] = dict_get g1 b [] @ map from_id (filter (\<lambda>e. to_id e = b) (valid_edges K es))"
    and d2: "\<And>a. dict_get d' a 0 = dict_get d1 a 0 + int (length (filter (\<lambda>e. from_id e = a) (valid_edges K es)))"
    by blast
  have "add_edges (e # es) (g, d) = Inr (g', d')"
    using 1 2 by simp
  moreover have "dict_get g' b [] = dict_get g b [] @ map from_id (filter (\<lambda>e. to_id e = b) (valid_edges K (e # es)))" for b
    unfolding valid_edges_Cons[of K e es] g2 g1 by simp
  moreover have "dict_get d' a 0 = dict_get d a 0 + int (length (filter (\<lambda>e. from_id e = a) (valid_edges K (e # es))))" for a
    unfolding valid_edges_Cons[of K e es] d2 d1 by simp
  ultimately show ?case
    using 2 by blast
qed


subsection \<open>The inner loop\<close>

lemma release_ok:
  assumes "set ds \<subseteq> set (dict_keys d)"
      and "\<forall>a \<in> set ds. int (count_list ds a) \<le> dict_get d a 0"
  shows "\<exists>d' w. release ds (d, q) = Inr (d', q @ w) \<and> dict_keys d' = dict_keys d \<and>
           (\<forall>a. dict_get d' a 0 = dict_get d a 0 - int (count_list ds a)) \<and>
           distinct w \<and> set w = {a \<in> set ds. dict_get d a 0 = int (count_list ds a)}"
  using assms
proof (induction ds arbitrary: d q)
  case Nil
  then show ?case by simp
next
  case (Cons x ds)
  obtain v where v: "map_of d x = Some v"
    using Cons.prems(1) map_of_present[of x d] by auto
  have vx: "dict_get d x 0 = v"
    using v by (rule map_of_dict_get)
  let ?d = "AList.update x (v - 1) d"
  let ?q = "if v - 1 = 0 then q @ [x] else q"
  have step: "release (x # ds) (d, q) = release ds (?d, ?q)"
    using v by simp
  have keys: "dict_keys ?d = dict_keys d"
    using Cons.prems(1) by (simp add: dict_keys_update_present)
  have get: "dict_get ?d a 0 = dict_get d a 0 - (if a = x then 1 else 0)" for a
    using vx by (simp add: dict_get_update)
  have p1: "set ds \<subseteq> set (dict_keys ?d)"
    using Cons.prems(1) keys by simp
  have p2: "\<forall>a \<in> set ds. int (count_list ds a) \<le> dict_get ?d a 0"
  proof
    fix a assume "a \<in> set ds"
    then have "int (count_list (x # ds) a) \<le> dict_get d a 0"
      using Cons.prems(2) by simp
    then show "int (count_list ds a) \<le> dict_get ?d a 0"
      unfolding get by (simp split: if_splits)
  qed
  from Cons.IH[OF p1 p2, of ?q] obtain d' w where
    r: "release ds (?d, ?q) = Inr (d', ?q @ w)" "dict_keys d' = dict_keys ?d"
    and g: "\<And>a. dict_get d' a 0 = dict_get ?d a 0 - int (count_list ds a)"
    and w: "distinct w" "set w = {a \<in> set ds. dict_get ?d a 0 = int (count_list ds a)}"
    by blast
  have vge: "1 + int (count_list ds x) \<le> v"
    using Cons.prems(2) vx by simp
  have g': "dict_get d' a 0 = dict_get d a 0 - int (count_list (x # ds) a)" for a
    unfolding g get by simp
  show ?case
  proof (cases "v - 1 = 0")
    case True
    then have v1: "v = 1" by simp
    with vge have c0: "count_list ds x = 0" by simp
    then have xn: "x \<notin> set ds" by (simp add: count_list_0_iff)
    show ?thesis
    proof (intro exI conjI allI)
      show "release (x # ds) (d, q) = Inr (d', q @ (x # w))"
        using step r True by simp
      show "dict_keys d' = dict_keys d"
        using r(2) keys by simp
      show "dict_get d' a 0 = dict_get d a 0 - int (count_list (x # ds) a)" for a
        by (rule g')
      show "distinct (x # w)"
        using w xn by simp
      show "set (x # w) = {a \<in> set (x # ds). dict_get d a 0 = int (count_list (x # ds) a)}"
        using w(2) xn vx v1 c0 unfolding get by auto
    qed
  next
    case False
    have xin: "x \<in> set ds" if "v = 1 + int (count_list ds x)"
    proof -
      from that False have "count_list ds x \<noteq> 0" by simp
      then show ?thesis by (simp add: count_list_0_iff)
    qed
    show ?thesis
    proof (intro exI conjI allI)
      show "release (x # ds) (d, q) = Inr (d', q @ w)"
        using step r False by simp
      show "dict_keys d' = dict_keys d"
        using r(2) keys by simp
      show "dict_get d' a 0 = dict_get d a 0 - int (count_list (x # ds) a)" for a
        by (rule g')
      show "distinct w"
        by (rule w(1))
      show "set w = {a \<in> set (x # ds). dict_get d a 0 = int (count_list (x # ds) a)}"
        using w(2) vx xin unfolding get by auto
    qed
  qed
qed


subsection \<open>One iteration of the queue loop\<close>

lemma length_filter_split:
  "length (filter P xs) = length (filter (\<lambda>x. P x \<and> S x) xs) + length (filter (\<lambda>x. P x \<and> \<not> S x) xs)"
  by (induction xs) auto

lemma kahn_step:
  assumes inv: "kahn_inv K E D (n # Q) R"
      and E: "\<forall>e \<in> set E. from_id e \<in> set K \<and> to_id e \<in> set K"
      and G: "\<forall>b. dict_get G b [] = map from_id (filter (\<lambda>e. to_id e = b) E)"
  shows "\<exists>D' W. release (dict_get G n []) (D, Q) = Inr (D', Q @ W) \<and>
                 kahn_inv K E D' (Q @ W) (R @ [n])"
proof -
  let ?ds = "map from_id (filter (\<lambda>e. to_id e = n) E)"
  have keys: "dict_keys D = K"
    and dist: "distinct (R @ n # Q)"
    and sub: "set (R @ n # Q) \<subseteq> set K"
    and deg: "\<And>a. dict_get D a 0 = int (length (filter (\<lambda>e. from_id e = a \<and> to_id e \<notin> set R) E))"
    and zero: "\<And>a. a \<in> set K \<Longrightarrow> (a \<in> set (R @ n # Q)) = (dict_get D a 0 = 0)"
    and topo: "topo_sorted E R"
    using inv unfolding kahn_inv_def by blast+
  have nR: "n \<notin> set R" using dist by simp
  have cnt: "count_list ?ds a = length (filter (\<lambda>e. from_id e = a \<and> to_id e = n) E)" for a
    by (simp add: count_list_map_filter conj_commute)
  have f1: "filter (\<lambda>e. (from_id e = a \<and> to_id e \<notin> set R) \<and> to_id e = n) E =
            filter (\<lambda>e. from_id e = a \<and> to_id e = n) E" for a
    using nR by (intro filter_cong) auto
  have f2: "filter (\<lambda>e. (from_id e = a \<and> to_id e \<notin> set R) \<and> to_id e \<noteq> n) E =
            filter (\<lambda>e. from_id e = a \<and> to_id e \<notin> set (R @ [n])) E" for a
    by (intro filter_cong) auto
  have split: "dict_get D a 0 = int (count_list ?ds a) +
        int (length (filter (\<lambda>e. from_id e = a \<and> to_id e \<notin> set (R @ [n])) E))" for a
    unfolding deg cnt
    using length_filter_split[of "\<lambda>e. from_id e = a \<and> to_id e \<notin> set R" E "\<lambda>e. to_id e = n"]
    unfolding f1 f2 by simp
  have p1: "set ?ds \<subseteq> set (dict_keys D)"
    using E keys by auto
  have p2: "\<forall>a \<in> set ?ds. int (count_list ?ds a) \<le> dict_get D a 0"
    using split by simp
  from release_ok[OF p1 p2, of Q] obtain D' W where
    r: "release ?ds (D, Q) = Inr (D', Q @ W)" "dict_keys D' = dict_keys D"
    and g: "\<And>a. dict_get D' a 0 = dict_get D a 0 - int (count_list ?ds a)"
    and w: "distinct W" "set W = {a \<in> set ?ds. dict_get D a 0 = int (count_list ?ds a)}"
    by blast
  have deg': "dict_get D' a 0 = int (length (filter (\<lambda>e. from_id e = a \<and> to_id e \<notin> set (R @ [n])) E))" for a
    unfolding g using split[of a] by simp
  have Wiff: "a \<in> set W \<longleftrightarrow> dict_get D a 0 \<noteq> 0 \<and> dict_get D' a 0 = 0" for a
  proof -
    have "a \<in> set ?ds \<longleftrightarrow> count_list ?ds a \<noteq> 0"
      by (simp add: count_list_0_iff)
    then show ?thesis
      unfolding w(2) using g[of a] deg'[of a] by auto
  qed
  have WK: "set W \<subseteq> set K"
    using w(2) p1 keys by auto
  have Wnew: "a \<in> set W \<Longrightarrow> a \<notin> set (R @ n # Q)" for a
    using Wiff[of a] zero[of a] WK by auto
  have inv1: "dict_keys D' = K"
    using r(2) keys by simp
  have inv2: "distinct ((R @ [n]) @ (Q @ W))"
    using dist w(1) Wnew by auto
  have inv3: "set ((R @ [n]) @ (Q @ W)) \<subseteq> set K"
    using sub WK by auto
  have inv5: "(a \<in> set ((R @ [n]) @ (Q @ W))) = (dict_get D' a 0 = 0)" if "a \<in> set K" for a
  proof (cases "a \<in> set (R @ n # Q)")
    case True
    then have "dict_get D a 0 = 0" using zero[OF that] by simp
    then have "dict_get D' a 0 = 0"
      using split[of a] deg'[of a] by linarith
    with True show ?thesis by auto
  next
    case False
    then have "dict_get D a 0 \<noteq> 0" using zero[OF that] by simp
    then have "a \<in> set W \<longleftrightarrow> dict_get D' a 0 = 0"
      using Wiff[of a] by simp
    with False show ?thesis by auto
  qed
  have inv6: "topo_sorted E (R @ [n])"
    unfolding topo_sorted_def
  proof (intro ballI impI)
    fix e assume e: "e \<in> set E" and f: "from_id e \<in> set (R @ [n])"
    show "index_of (R @ [n]) (to_id e) < index_of (R @ [n]) (from_id e)"
    proof (cases "from_id e \<in> set R")
      case True
      then have lt: "index_of R (to_id e) < index_of R (from_id e)"
        using topo e by (simp add: topo_sorted_def)
      also have "\<dots> \<le> length R" by (rule index_of_le)
      finally have "to_id e \<in> set R" by (simp add: index_of_less_iff)
      then show ?thesis
        using True lt by (simp add: index_of_append_in)
    next
      case False
      then have fn: "from_id e = n" using f by simp
      have "n \<in> set K" using sub by simp
      then have "dict_get D n 0 = 0" using zero[of n] by simp
      then have "filter (\<lambda>e. from_id e = n \<and> to_id e \<notin> set R) E = []"
        unfolding deg by simp
      then have "to_id e \<in> set R"
        using e fn by (auto simp: filter_empty_conv)
      then have "index_of (R @ [n]) (to_id e) < length R"
        by (simp add: index_of_append_in index_of_less_iff)
      moreover have "index_of [n] n = 0"
        by (simp add: index_of_def)
      then have "index_of (R @ [n]) (from_id e) = length R"
        using nR fn by (simp add: index_of_append_notin)
      ultimately show ?thesis by simp
    qed
  qed
  have "kahn_inv K E D' (Q @ W) (R @ [n])"
    unfolding kahn_inv_def
    using inv1 inv2 inv3 deg' inv5 inv6 by blast
  moreover have "release (dict_get G n []) (D, Q) = Inr (D', Q @ W)"
    using r(1) G by simp
  ultimately show ?thesis by blast
qed

lemma kahn_loop_ok:
  assumes "kahn_inv K E D Q R"
      and "\<forall>e \<in> set E. from_id e \<in> set K \<and> to_id e \<in> set K"
      and "\<forall>b. dict_get G b [] = map from_id (filter (\<lambda>e. to_id e = b) E)"
  shows "\<exists>D' R'. kahn_loop G D Q R = Inr (D', R') \<and> kahn_inv K E D' [] R'"
  using assms
proof (induction G D Q R rule: kahn_loop.induct)
  case (1 graph in_degree result)
  then show ?case by simp
next
  case (2 graph in_degree node queue result)
  from kahn_step[OF "2.prems"] obtain D' W where
    r: "release (dict_get graph node []) (in_degree, queue) = Inr (D', queue @ W)"
    and i: "kahn_inv K E D' (queue @ W) (result @ [node])"
    by blast
  from "2.IH"[OF r refl i "2.prems"(2,3)] obtain D'' R' where
    "kahn_loop graph D' (queue @ W) (result @ [node]) = Inr (D'', R')" "kahn_inv K E D'' [] R'"
    by blast
  then show ?case
    using r by auto
qed


subsection \<open>The whole sort\<close>

lemma initial_queue:
  assumes "distinct (dict_keys d)" "a \<in> set (dict_keys d)"
  shows "a \<in> set (map fst (filter (\<lambda>(node, degree). degree = 0) d)) \<longleftrightarrow> dict_get d a (0::int) = 0"
proof -
  obtain v where v: "map_of d a = Some v"
    using assms(2) map_of_present[of a d] by auto
  have "(a, w) \<in> set d \<longleftrightarrow> map_of d a = Some w" for w
    using assms(1) by (simp add: dict_keys_def)
  then have "(a, w) \<in> set d \<longleftrightarrow> w = v" for w
    using v by auto
  then show ?thesis
    using v by (auto simp: dict_get_def image_iff)
qed

lemma topological_sort_inv:
  fixes nodes edges
  defines "K \<equiv> key_order (map node_id nodes) []"
  defines "P \<equiv> kahn_processed nodes edges"
  shows "topological_sort nodes edges = Inr (P @ filter (\<lambda>n. n \<notin> set P) K) \<and>
         (\<exists>D. kahn_inv K (valid_edges K edges) D [] P)"
proof -
  let ?E = "valid_edges K edges"
  have kg: "dict_keys (init_graph nodes []) = K"
    using init_graph_keys[of nodes "[]"] by (simp add: K_def dict_keys_def)
  have kd: "dict_keys (init_in_degree nodes []) = K"
    using init_in_degree_keys[of nodes "[]"] by (simp add: K_def dict_keys_def)
  have dK: "distinct K"
    by (simp add: K_def key_order_distinct)
  from add_edges_ok[OF kg kd, of edges] obtain g d where
    a: "add_edges edges (init_graph nodes [], init_in_degree nodes []) = Inr (g, d)"
    and k: "dict_keys g = K" "dict_keys d = K"
    and g0: "\<And>b. dict_get g b [] = dict_get (init_graph nodes []) b [] @ map from_id (filter (\<lambda>e. to_id e = b) ?E)"
    and d0: "\<And>x. dict_get d x 0 = dict_get (init_in_degree nodes []) x 0 + int (length (filter (\<lambda>e. from_id e = x) ?E))"
    by blast
  have ig: "dict_get (init_graph nodes []) b [] = []" for b
    by (rule init_graph_get) (simp add: dict_get_def)
  have id: "dict_get (init_in_degree nodes []) x 0 = 0" for x
    by (rule init_in_degree_get) (simp add: dict_get_def)
  have G: "\<forall>b. dict_get g b [] = map from_id (filter (\<lambda>e. to_id e = b) ?E)"
    unfolding g0 ig by simp
  have D: "dict_get d x 0 = int (length (filter (\<lambda>e. from_id e = x) ?E))" for x
    unfolding d0 id by simp
  have E: "\<forall>e \<in> set ?E. from_id e \<in> set K \<and> to_id e \<in> set K"
    by (simp add: valid_edges_def)
  let ?Q = "map fst (filter (\<lambda>(node, degree). degree = 0) d)"
  have dQ: "distinct ?Q"
    using dK k(2) by (simp add: dict_keys_def distinct_map_filter)
  have sQ: "set ?Q \<subseteq> set K"
    using k(2) by (force simp: dict_keys_def)
  have i0: "kahn_inv K ?E d ?Q []"
    unfolding kahn_inv_def
  proof (intro conjI allI ballI)
    show "dict_keys d = K" by (rule k(2))
    show "distinct ([] @ ?Q)" using dQ by simp
    show "set ([] @ ?Q) \<subseteq> set K" using sQ by simp
    show "dict_get d x 0 = int (length (filter (\<lambda>e. from_id e = x \<and> to_id e \<notin> set []) ?E))" for x
      using D[of x] by simp
    show "(x \<in> set ([] @ ?Q)) = (dict_get d x 0 = 0)" if "x \<in> set K" for x
      using initial_queue[of d x] dK k(2) that by simp
    show "topo_sorted ?E []" by (simp add: topo_sorted_def)
  qed
  from kahn_loop_ok[OF i0 E G] obtain D' R' where
    l: "kahn_loop g d ?Q [] = Inr (D', R')" and i: "kahn_inv K ?E D' [] R'"
    by blast
  have P: "P = R'"
    using a l by (simp add: P_def kahn_processed_def)
  have kD: "dict_keys D' = K"
    using i by (simp add: kahn_inv_def)
  have "topological_sort nodes edges = Inr (P @ filter (\<lambda>n. n \<notin> set P) K)"
    using a l kD P by (simp add: topological_sort_def)
  then show ?thesis
    using i P by blast
qed

text \<open>
  Claim C1, as stated: for every non-circular foreign-key edge A\<rightarrow>B, B precedes A. With
  tables a, b, c (in this order) and foreign keys a\<rightarrow>b, b\<rightarrow>c, c\<rightarrow>b, no node ever reaches
  in-degree zero, the order is the input order a, b, c, and the edge a\<rightarrow>b, which has no
  reverse edge, has its target after its source.
\<close>

theorem C1_order_counterexample:
  "topological_sort cycle_nodes cycle_edges = Inr [''table:a'', ''table:b'', ''table:c''] \<and>
   mk_edge ''a'' ''b'' \<in> set cycle_edges \<and>
   edge_type (mk_edge ''a'' ''b'') = ''foreign_key'' \<and>
   mk_edge ''b'' ''a'' \<notin> set cycle_edges \<and>
   ''table:a'' \<notin> set (map to_id cycle_edges) \<and>
   \<not> index_of [''table:a'', ''table:b'', ''table:c''] (to_id (mk_edge ''a'' ''b''))
       < index_of [''table:a'', ''table:b'', ''table:c''] (from_id (mk_edge ''a'' ''b''))"
  by (simp add: topological_sort_def cycle_nodes_def cycle_edges_def mk_node_def mk_edge_def
      add_edge_def dict_keys_def dict_get_def index_of_def)

text \<open>
  Claim C1, amended: the sort never raises and returns a list that holds every input node
  id exactly once: the nodes emitted by the queue loop, followed by the nodes that never
  reached in-degree zero, in the order of their first occurrence in the input (the input
  order itself when the ids are distinct). For every edge A\<rightarrow>B between graph nodes, of any
  edge type, whose target B was emitted by the queue loop, B precedes A. Emitted nodes
  depend on emitted nodes only, and every node left over has an edge to a node left over
  (it lies on a cycle or depends on one). No order is promised for an edge whose target is
  left over.
\<close>

theorem C1_topological_sort:
  fixes nodes edges
  defines "processed \<equiv> kahn_processed nodes edges"
  defines "stuck \<equiv> kahn_stuck nodes edges"
  defines "order \<equiv> processed @ stuck"
  shows "topological_sort nodes edges = Inr order \<and>
         distinct order \<and> set order = node_id ` set nodes \<and>
         stuck = filter (\<lambda>n. n \<notin> set processed) (key_order (map node_id nodes) []) \<and>
         (distinct (map node_id nodes) \<longrightarrow>
            stuck = filter (\<lambda>n. n \<notin> set processed) (map node_id nodes)) \<and>
         (\<forall>e \<in> set edges. from_id e \<in> set order \<longrightarrow> to_id e \<in> set processed \<longrightarrow>
            index_of order (to_id e) < index_of order (from_id e)) \<and>
         (\<forall>e \<in> set edges. from_id e \<in> set processed \<longrightarrow> to_id e \<in> set order \<longrightarrow>
            to_id e \<in> set processed) \<and>
         (\<forall>n \<in> set stuck. \<exists>e \<in> set edges. from_id e = n \<and> to_id e \<in> set stuck)"
proof -
  define K where "K = key_order (map node_id nodes) []"
  let ?E = "valid_edges K edges"
  from topological_sort_inv[of nodes edges] obtain D where
    ts: "topological_sort nodes edges = Inr (processed @ filter (\<lambda>n. n \<notin> set processed) K)"
    and inv: "kahn_inv K ?E D [] processed"
    unfolding K_def processed_def by blast
  have st: "stuck = filter (\<lambda>n. n \<notin> set processed) K"
    by (simp add: stuck_def kahn_stuck_def processed_def K_def)
  have dK: "distinct K" and sK: "set K = node_id ` set nodes"
    by (simp_all add: K_def key_order_distinct key_order_set)
  have dP: "distinct processed" and sP: "set processed \<subseteq> set K"
    and deg: "\<And>a. dict_get D a 0 = int (length (filter (\<lambda>e. from_id e = a \<and> to_id e \<notin> set processed) ?E))"
    and zero: "\<And>a. a \<in> set K \<Longrightarrow> (a \<in> set processed) = (dict_get D a 0 = 0)"
    and topo: "topo_sorted ?E processed"
    using inv unfolding kahn_inv_def by simp_all
  have so: "set order = set K"
    using sP by (auto simp: order_def st)
  have c1: "topological_sort nodes edges = Inr order"
    using ts by (simp add: order_def st)
  have c2: "distinct order"
    using dP dK by (auto simp: order_def st)
  have c3: "set order = node_id ` set nodes"
    using so sK by simp
  have c4: "stuck = filter (\<lambda>n. n \<notin> set processed) (key_order (map node_id nodes) [])"
    using st K_def by simp
  have c5: "distinct (map node_id nodes) \<longrightarrow>
            stuck = filter (\<lambda>n. n \<notin> set processed) (map node_id nodes)"
    using st K_def key_order_distinct_eq[of "[]" "map node_id nodes"] by simp
  have dep: "to_id e \<in> set processed"
    if "e \<in> set edges" "from_id e \<in> set processed" "to_id e \<in> set K" for e
  proof -
    have fK: "from_id e \<in> set K" using that(2) sP by auto
    then have "dict_get D (from_id e) 0 = 0" using zero that(2) by simp
    then have "filter (\<lambda>e'. from_id e' = from_id e \<and> to_id e' \<notin> set processed) ?E = []"
      unfolding deg by simp
    moreover have "e \<in> set ?E" using that fK by (simp add: valid_edges_def)
    ultimately show ?thesis by (auto simp: filter_empty_conv)
  qed
  have c6: "\<forall>e \<in> set edges. from_id e \<in> set order \<longrightarrow> to_id e \<in> set processed \<longrightarrow>
            index_of order (to_id e) < index_of order (from_id e)"
  proof (intro ballI impI)
    fix e assume e: "e \<in> set edges" and f: "from_id e \<in> set order" and t: "to_id e \<in> set processed"
    have eE: "e \<in> set ?E" using e f t so sP by (auto simp: valid_edges_def)
    have it: "index_of order (to_id e) = index_of processed (to_id e)"
      using t by (simp add: order_def index_of_append_in)
    show "index_of order (to_id e) < index_of order (from_id e)"
    proof (cases "from_id e \<in> set processed")
      case True
      then show ?thesis
        using topo eE it by (simp add: topo_sorted_def order_def index_of_append_in)
    next
      case False
      have "index_of processed (to_id e) < length processed"
        using t by (simp add: index_of_less_iff)
      then show ?thesis
        using False it by (simp add: order_def index_of_append_notin)
    qed
  qed
  have c7: "\<forall>e \<in> set edges. from_id e \<in> set processed \<longrightarrow> to_id e \<in> set order \<longrightarrow>
            to_id e \<in> set processed"
    using dep so by blast
  have c8: "\<forall>n \<in> set stuck. \<exists>e \<in> set edges. from_id e = n \<and> to_id e \<in> set stuck"
  proof
    fix n assume "n \<in> set stuck"
    then have n: "n \<in> set K" "n \<notin> set processed" by (simp_all add: st)
    then have "dict_get D n 0 \<noteq> 0" using zero by simp
    then have "filter (\<lambda>e. from_id e = n \<and> to_id e \<notin> set processed) ?E \<noteq> []"
      unfolding deg by simp
    then obtain e where "e \<in> set ?E" "from_id e = n" "to_id e \<notin> set processed"
      by (auto simp: filter_empty_conv)
    then have "e \<in> set edges" "from_id e = n" "to_id e \<in> set stuck"
      by (auto simp: valid_edges_def st)
    then show "\<exists>e \<in> set edges. from_id e = n \<and> to_id e \<in> set stuck" by blast
  qed
  show ?thesis
    using c1 c2 c3 c4 c5 c6 c7 c8 by blast
qed


theorem C1_topological_sort_witness:
  "topological_sort mixed_nodes mixed_edges =
     Inr [''table:b'', ''table:a'', ''table:c'', ''table:d''] \<and>
   kahn_processed mixed_nodes mixed_edges = [''table:b'', ''table:a''] \<and>
   kahn_stuck mixed_nodes mixed_edges = [''table:c'', ''table:d''] \<and>
   distinct (map node_id mixed_nodes) \<and>
   mk_edge ''a'' ''b'' \<in> set mixed_edges \<and>
   index_of [''table:b'', ''table:a'', ''table:c'', ''table:d''] ''table:b''
     < index_of [''table:b'', ''table:a'', ''table:c'', ''table:d''] ''table:a'' \<and>
   mk_edge ''c'' ''b'' \<in> set mixed_edges \<and>
   index_of [''table:b'', ''table:a'', ''table:c'', ''table:d''] ''table:b''
     < index_of [''table:b'', ''table:a'', ''table:c'', ''table:d''] ''table:c''"
proof -
  have p: "kahn_processed mixed_nodes mixed_edges = [''table:b'', ''table:a'']"
    by (simp add: kahn_processed_def mixed_nodes_def mixed_edges_def mk_node_def mk_edge_def
        add_edge_def dict_keys_def dict_get_def)
  have s: "kahn_stuck mixed_nodes mixed_edges = [''table:c'', ''table:d'']"
    unfolding kahn_stuck_def p by (simp add: mixed_nodes_def mk_node_def)
  have d: "distinct (map node_id mixed_nodes)"
    by (simp add: mixed_nodes_def mk_node_def)
  have e: "mk_edge ''a'' ''b'' \<in> set mixed_edges" "mk_edge ''c'' ''b'' \<in> set mixed_edges"
    by (simp_all add: mixed_edges_def)
  have f: "from_id (mk_edge ''a'' ''b'') = ''table:a''" "to_id (mk_edge ''a'' ''b'') = ''table:b''"
    "from_id (mk_edge ''c'' ''b'') = ''table:c''" "to_id (mk_edge ''c'' ''b'') = ''table:b''"
    by (simp_all add: mk_edge_def)
  note t = C1_topological_sort[of mixed_nodes mixed_edges, unfolded p s]
  from t have 1: "topological_sort mixed_nodes mixed_edges =
     Inr [''table:b'', ''table:a'', ''table:c'', ''table:d'']"
    by simp
  from t have o: "\<forall>e \<in> set mixed_edges.
      from_id e \<in> set ([''table:b'', ''table:a''] @ [''table:c'', ''table:d'']) \<longrightarrow>
      to_id e \<in> set [''table:b'', ''table:a''] \<longrightarrow>
      index_of ([''table:b'', ''table:a''] @ [''table:c'', ''table:d'']) (to_id e)
        < index_of ([''table:b'', ''table:a''] @ [''table:c'', ''table:d'']) (from_id e)"
    by blast
  have 2: "index_of [''table:b'', ''table:a'', ''table:c'', ''table:d''] ''table:b''
     < index_of [''table:b'', ''table:a'', ''table:c'', ''table:d''] ''table:a''"
    using bspec[OF o e(1)] by (simp add: f)
  have 3: "index_of [''table:b'', ''table:a'', ''table:c'', ''table:d''] ''table:b''
     < index_of [''table:b'', ''table:a'', ''table:c'', ''table:d''] ''table:c''"
    using bspec[OF o e(2)] by (simp add: f)
  show ?thesis
    using 1 p s d e 2 3 by simp
qed

subsection \<open>The sandbox-repair loop\<close>

lemma should_continue_values:
  "should_continue_after_sandbox st = ''error_fixer'' \<or> should_continue_after_sandbox st = ''validation''"
  by (simp add: should_continue_after_sandbox_def Let_def)

lemma should_continue_validation_iff:
  "should_continue_after_sandbox st = ''validation'' \<longleftrightarrow>
     filter (\<lambda>r. \<not> executed r) (sandbox_results st) = [] \<or> 5 \<le> sandbox_retry_count st"
  by (auto simp: should_continue_after_sandbox_def Let_def)

lemma sandbox_repair_loop_props:
  "sandbox_repair_loop exec reset attempt_fix fix_view invoke_llm s = (cycles, s') \<Longrightarrow>
     should_continue_after_sandbox (snd s') = ''validation'' \<and>
     sandbox_retry_count (snd s') = sandbox_retry_count (snd s) + int cycles \<and>
     (cycles \<noteq> 0 \<longrightarrow> sandbox_retry_count (snd s') \<le> 5)"
proof (induction exec reset attempt_fix fix_view invoke_llm s arbitrary: cycles s'
       rule: sandbox_repair_loop.induct)
  case (1 exec reset attempt_fix fix_view invoke_llm s)
  let ?s1 = "SandboxAgent_run exec reset attempt_fix fix_view s"
  have c1: "sandbox_retry_count (snd ?s1) = sandbox_retry_count (snd s)"
    by (rule SandboxAgent_run_retry_count)
  show ?case
  proof (cases "should_continue_after_sandbox (snd ?s1) = ''error_fixer''")
    case False
    then have "cycles = 0" "s' = ?s1"
      using "1.prems" by (simp_all add: sandbox_repair_loop.simps[of exec reset attempt_fix fix_view invoke_llm s] Let_def)
    then show ?thesis
      using False should_continue_values[of "snd ?s1"] c1 by auto
  next
    case True
    let ?s2 = "(fst ?s1, ErrorFixerAgent_run invoke_llm (snd ?s1))"
    obtain k t where r: "sandbox_repair_loop exec reset attempt_fix fix_view invoke_llm ?s2 = (k, t)"
      by (cases "sandbox_repair_loop exec reset attempt_fix fix_view invoke_llm ?s2")
    then have cs: "cycles = Suc k" "s' = t"
      using "1.prems" True
      by (simp_all add: sandbox_repair_loop.simps[of exec reset attempt_fix fix_view invoke_llm s] Let_def)
    note p = "1.IH"[OF refl True r]
    have ih: "should_continue_after_sandbox (snd t) = ''validation''"
      "sandbox_retry_count (snd t) = sandbox_retry_count (snd ?s2) + int k"
      "k \<noteq> 0 \<longrightarrow> sandbox_retry_count (snd t) \<le> 5"
      using p by blast+
    have c2: "sandbox_retry_count (snd ?s2) = sandbox_retry_count (snd s) + 1"
      using c1 by (simp add: ErrorFixerAgent_run_retry_count)
    have lt: "sandbox_retry_count (snd s) < 5"
      using True c1 by (simp add: should_continue_after_sandbox_def Let_def split: if_splits)
    show ?thesis
      using ih c2 lt cs by (cases "k = 0") auto
  qed
qed

text \<open>
  Claim C4: the sandbox-repair loop always ends in the validation branch. The error fixer
  adds exactly one to the retry counter per run, however many objects failed, so the
  counter grows by the number of repair cycles; from a counter of zero there are at most
  five cycles (the bound \<open>max_retries\<close>); when failures remain at the end the counter has
  reached the bound, and from a counter of zero that takes exactly five cycles. The
  remaining failures stay in \<open>sandbox_results\<close>.
\<close>

theorem C4_retry_bound:
  assumes "sandbox_repair_loop exec reset attempt_fix fix_view invoke_llm (w, state) =
             (cycles, w', state')"
  shows "should_continue_after_sandbox state' = ''validation'' \<and>
         sandbox_retry_count state' = sandbox_retry_count state + int cycles \<and>
         (sandbox_retry_count state = 0 \<longrightarrow> cycles \<le> 5) \<and>
         (filter (\<lambda>r. \<not> executed r) (sandbox_results state') \<noteq> [] \<longrightarrow>
            5 \<le> sandbox_retry_count state') \<and>
         (sandbox_retry_count state = 0 \<and>
          filter (\<lambda>r. \<not> executed r) (sandbox_results state') \<noteq> [] \<longrightarrow> cycles = 5) \<and>
         sandbox_retry_count (ErrorFixerAgent_run invoke_llm st) = sandbox_retry_count st + 1"
proof -
  note p = sandbox_repair_loop_props[OF assms, simplified snd_conv]
  have v: "should_continue_after_sandbox state' = ''validation''"
    and c: "sandbox_retry_count state' = sandbox_retry_count state + int cycles"
    and b: "cycles \<noteq> 0 \<longrightarrow> sandbox_retry_count state' \<le> 5"
    using p by blast+
  have f: "filter (\<lambda>r. \<not> executed r) (sandbox_results state') \<noteq> [] \<longrightarrow> 5 \<le> sandbox_retry_count state'"
    using v unfolding should_continue_validation_iff by blast
  have "sandbox_retry_count state = 0 \<longrightarrow> cycles \<le> 5"
    using c b by (cases "cycles = 0") auto
  moreover have "sandbox_retry_count state = 0 \<and>
          filter (\<lambda>r. \<not> executed r) (sandbox_results state') \<noteq> [] \<longrightarrow> cycles = 5"
    using c b f by (cases "cycles = 0") auto
  ultimately show ?thesis
    using v c f by (simp add: ErrorFixerAgent_run_retry_count)
qed

lemma always_fails_run:
  "sandbox_repair_loop always_fails (\<lambda>db. db) (\<lambda>ddl err. ddl) (\<lambda>ddl. ddl) silent_llm
     (((), []), one_table_state) =
   (5, ((), [city_call, city_call, city_call, city_call, city_call, city_call]), one_table_final)"
  by (simp add: sandbox_repair_loop.simps one_table_state_def one_table_final_def city_call_def
      always_fails_def silent_llm_def
      SandboxAgent_run_def Let_def indices_of_type_def sort_by_dependency_def simple_dependency_sort_def
      execute_and_record_def execute_ddl_def error_list_def should_continue_after_sandbox_def
      ErrorFixerAgent_run_def fix_error_with_context_def)

theorem C4_retry_bound_witness:
  "sandbox_repair_loop always_fails (\<lambda>db. db) (\<lambda>ddl err. ddl) (\<lambda>ddl. ddl) silent_llm
     (((), []), one_table_state) =
   (5, ((), [city_call, city_call, city_call, city_call, city_call, city_call]), one_table_final) \<and>
   sandbox_retry_count one_table_state = 0 \<and>
   filter (\<lambda>r. \<not> executed r) (sandbox_results one_table_final) \<noteq> [] \<and>
   should_continue_after_sandbox one_table_final = ''validation'' \<and>
   sandbox_retry_count one_table_final = 5 \<and>
   sandbox_retry_count (ErrorFixerAgent_run silent_llm one_table_state) = 1"
  using C4_retry_bound[OF always_fails_run, of one_table_state] always_fails_run
  by (simp add: one_table_state_def one_table_final_def)


subsection \<open>Execution order of a sandbox pass\<close>









subsection \<open>The table order\<close>












subsection \<open>The whole pass\<close>












subsection \<open>Pass 1: cleaning the reply of the language model\<close>

lemma py_startswith_iff: "py_startswith s p \<longleftrightarrow> (\<exists>q. s = p @ q)"
proof
  assume "py_startswith s p"
  then have "take (length p) s = p" by (simp add: py_startswith_def)
  then have "s = p @ drop (length p) s" by (metis append_take_drop_id)
  then show "\<exists>q. s = p @ q" ..
next
  assume "\<exists>q. s = p @ q"
  then show "py_startswith s p" by (auto simp: py_startswith_def)
qed

lemma py_contains_iff: "py_contains sub s \<longleftrightarrow> (\<exists>p q. s = p @ sub @ q)"
proof (induction s)
  case Nil
  show ?case by simp
next
  case (Cons c cs)
  show ?case
  proof
    assume "py_contains sub (c # cs)"
    then consider "py_startswith (c # cs) sub" | "py_contains sub cs" by auto
    then show "\<exists>p q. c # cs = p @ sub @ q"
    proof cases
      case 1
      then obtain q where "c # cs = sub @ q" unfolding py_startswith_iff ..
      then have "c # cs = [] @ sub @ q" by simp
      then show ?thesis by blast
    next
      case 2
      then obtain p q where "cs = p @ sub @ q" using Cons.IH by blast
      then have "c # cs = (c # p) @ sub @ q" by simp
      then show ?thesis by blast
    qed
  next
    assume "\<exists>p q. c # cs = p @ sub @ q"
    then obtain p q where pq: "c # cs = p @ sub @ q" by blast
    show "py_contains sub (c # cs)"
    proof (cases p)
      case Nil
      then have "py_startswith (c # cs) sub" using pq unfolding py_startswith_iff by auto
      then show ?thesis by simp
    next
      case (Cons a p')
      then have "cs = p' @ sub @ q" using pq by simp
      then have "py_contains sub cs" using Cons.IH by blast
      then show ?thesis by simp
    qed
  qed
qed

text \<open>Each step of the cleaning takes a contiguous part of its input.\<close>

lemma py_lstrip_part: "\<exists>a. s = a @ py_lstrip s"
  unfolding py_lstrip_def by (metis takeWhile_dropWhile_id)

lemma py_rstrip_part: "\<exists>b. s = py_rstrip s @ b"
proof -
  have "rev (takeWhile py_isspace (rev s) @ dropWhile py_isspace (rev s)) = s"
    by (simp only: takeWhile_dropWhile_id rev_rev_ident)
  then have "s = py_rstrip s @ rev (takeWhile py_isspace (rev s))"
    by (simp only: rev_append py_rstrip_def)
  then show ?thesis ..
qed

lemma py_strip_part: "\<exists>a b. s = a @ py_strip s @ b"
proof -
  obtain a where a: "s = a @ py_lstrip s" using py_lstrip_part by blast
  obtain b where b: "py_lstrip s = py_rstrip (py_lstrip s) @ b" using py_rstrip_part by blast
  have "s = a @ py_strip s @ b" unfolding py_strip_def using a b by simp
  then show ?thesis by blast
qed

lemma drop_part: "\<exists>a. s = a @ drop n s"
  by (metis append_take_drop_id)

lemma take_part: "\<exists>b. s = take n s @ b"
  by (metis append_take_drop_id)

lemma clean_sql_output_part:
  "\<exists>a core b. sql0 = a @ core @ b \<and> (clean_sql_output sql0 = core \<or> clean_sql_output sql0 = core @ '';'')"
proof -
  define sql1 where "sql1 = py_strip sql0"
  define sql2 where "sql2 = (if py_startswith sql1 ''```sql'' then drop 6 sql1
                  else if py_startswith sql1 ''```'' then drop 3 sql1
                  else sql1)"
  define sql3 where "sql3 = (if py_endswith sql2 ''```'' then take (length sql2 - 3) sql2 else sql2)"
  define sql4 where "sql4 = py_strip sql3"
  obtain a1 b1 where 1: "sql0 = a1 @ sql1 @ b1" unfolding sql1_def using py_strip_part by blast
  have "sql2 = drop 6 sql1 \<or> sql2 = drop 3 sql1 \<or> sql2 = drop 0 sql1"
    by (simp add: sql2_def)
  then obtain n where "sql2 = drop n sql1" by blast
  then obtain a2 where 2: "sql1 = a2 @ sql2" using drop_part[of sql1 n] by auto
  have "sql3 = take (length sql2 - 3) sql2 \<or> sql3 = take (length sql2) sql2"
    by (simp add: sql3_def)
  then obtain m where "sql3 = take m sql2" by blast
  then obtain b3 where 3: "sql2 = sql3 @ b3" using take_part[of sql2 m] by auto
  obtain a4 b4 where 4: "sql3 = a4 @ sql4 @ b4" unfolding sql4_def using py_strip_part by blast
  have "sql0 = a1 @ (a2 @ (a4 @ sql4 @ b4) @ b3) @ b1"
    by (simp only: 1 2 3 4 [symmetric])
  then have s: "sql0 = (a1 @ a2 @ a4) @ sql4 @ (b4 @ b3 @ b1)"
    by (simp only: append_assoc)
  have "clean_sql_output sql0 = (if \<not> py_endswith sql4 '';'' then sql4 @ '';'' else sql4)"
    unfolding clean_sql_output_def Let_def sql4_def sql3_def sql2_def sql1_def by (rule refl)
  then have c: "clean_sql_output sql0 = sql4 \<or> clean_sql_output sql0 = sql4 @ '';''"
    by (cases "py_endswith sql4 '';''") simp_all
  show ?thesis
    by (intro exI conjI) (rule s, rule c)
qed

lemma contains_drop_semicolon:
  assumes "py_contains kw (core @ '';'')" "kw \<noteq> []" "last kw \<noteq> CHR '';''"
  shows "py_contains kw core"
proof -
  obtain p q where pq: "core @ '';'' = p @ kw @ q" using assms(1) unfolding py_contains_iff by blast
  show ?thesis
  proof (cases q rule: rev_cases)
    case Nil
    then have "last (core @ '';'') = last kw" using pq assms(2) by simp
    then show ?thesis using assms(3) by simp
  next
    case (snoc q' x)
    then have "core @ '';'' = (p @ kw @ q') @ [x]" using pq by simp
    then have "core = p @ kw @ q'" by simp
    then show ?thesis unfolding py_contains_iff by blast
  qed
qed

lemma clean_sql_output_contains_only:
  assumes "py_contains kw (clean_sql_output sql0)" "kw \<noteq> []" "last kw \<noteq> CHR '';''"
  shows "py_contains kw sql0"
proof -
  obtain a core b where s: "sql0 = a @ core @ b"
    and c: "clean_sql_output sql0 = core \<or> clean_sql_output sql0 = core @ '';''"
    using clean_sql_output_part by blast
  have "py_contains kw core"
    using c assms contains_drop_semicolon by auto
  then obtain p q where "core = p @ kw @ q" unfolding py_contains_iff by blast
  then have "sql0 = (a @ p) @ kw @ (q @ b)" using s by simp
  then show ?thesis unfolding py_contains_iff by blast
qed

text \<open>A keyword that has no white space at its ends, no backquote and none of the letters
  of the fence tag survives the cleaning.\<close>

lemma dropWhile_keeps:
  assumes "kw \<noteq> []" "\<not> P (hd kw)"
  shows "\<exists>p'. dropWhile P (p @ kw @ q) = p' @ kw @ q"
proof (cases "\<forall>x\<in>set p. P x")
  case True
  then have "dropWhile P (p @ kw @ q) = dropWhile P (kw @ q)" by simp
  also have "\<dots> = [] @ kw @ q" using assms by (cases kw) auto
  finally show ?thesis by blast
next
  case False
  then obtain x where "x \<in> set p" "\<not> P x" by blast
  then have "dropWhile P (p @ kw @ q) = dropWhile P p @ kw @ q"
    by (rule dropWhile_append1)
  then show ?thesis by blast
qed

lemma py_lstrip_keeps:
  assumes "kw \<noteq> []" "\<not> py_isspace (hd kw)"
  shows "\<exists>p'. py_lstrip (p @ kw @ q) = p' @ kw @ q"
  unfolding py_lstrip_def using dropWhile_keeps[of kw py_isspace p q] assms by blast

lemma py_rstrip_keeps:
  assumes "kw \<noteq> []" "\<not> py_isspace (last kw)"
  shows "\<exists>q'. py_rstrip (p @ kw @ q) = p @ kw @ q'"
proof -
  have "rev kw \<noteq> []" "\<not> py_isspace (hd (rev kw))"
    using assms by (simp_all add: hd_rev)
  from dropWhile_keeps[of "rev kw" py_isspace "rev q" "rev p"] this
  obtain r where "dropWhile py_isspace (rev q @ rev kw @ rev p) = r @ rev kw @ rev p" by blast
  then have "py_rstrip (p @ kw @ q) = rev (r @ rev kw @ rev p)"
    by (simp add: py_rstrip_def)
  then have "py_rstrip (p @ kw @ q) = p @ kw @ rev r" by simp
  then show ?thesis by blast
qed

lemma py_strip_keeps:
  assumes "kw \<noteq> []" "\<not> py_isspace (hd kw)" "\<not> py_isspace (last kw)"
  shows "\<exists>p' q'. py_strip (p @ kw @ q) = p' @ kw @ q'"
proof -
  obtain p' where "py_lstrip (p @ kw @ q) = p' @ kw @ q"
    using py_lstrip_keeps[OF assms(1,2)] by blast
  moreover obtain q' where "py_rstrip (p' @ kw @ q) = p' @ kw @ q'"
    using py_rstrip_keeps[OF assms(1,3)] by blast
  ultimately have "py_strip (p @ kw @ q) = p' @ kw @ q'" by (simp add: py_strip_def)
  then show ?thesis by blast
qed

lemma drop_prefix_keeps:
  assumes "py_startswith (p @ kw @ q) pat" "kw \<noteq> []" "hd kw \<notin> set pat" "length pat = n"
  shows "\<exists>p'. drop n (p @ kw @ q) = p' @ kw @ q"
proof -
  have "length pat \<le> length p"
  proof (rule ccontr)
    assume "\<not> length pat \<le> length p"
    then have lt: "length p < length pat" by simp
    have "take (length pat) (p @ kw @ q) = pat"
      using assms(1) by (simp add: py_startswith_def)
    then have "pat ! length p = take (length pat) (p @ kw @ q) ! length p" by simp
    also have "\<dots> = (p @ kw @ q) ! length p"
      using lt by (rule nth_take)
    also have "\<dots> = hd kw" using assms(2) by (cases kw) (simp_all add: nth_append)
    finally have "pat ! length p = hd kw" .
    then have "hd kw \<in> set pat" using lt nth_mem[of "length p" pat] by simp
    then show False using assms(3) by simp
  qed
  then have "drop n (p @ kw @ q) = drop n p @ kw @ q" using assms(4) by simp
  then show ?thesis by blast
qed

lemma take_suffix_keeps:
  assumes "py_endswith (p @ kw @ q) pat" "kw \<noteq> []" "last kw \<notin> set pat" "length pat = n"
  shows "\<exists>q'. take (length (p @ kw @ q) - n) (p @ kw @ q) = p @ kw @ q'"
proof -
  let ?s = "p @ kw @ q"
  have d: "drop (length ?s - length pat) ?s = pat" and l: "length pat \<le> length ?s"
    using assms(1) by (simp_all add: py_endswith_def)
  have "length pat \<le> length q"
  proof (rule ccontr)
    assume "\<not> length pat \<le> length q"
    then have lt: "length q < length pat" by simp
    let ?i = "length pat - length q - 1"
    have i: "?i < length pat" using lt by simp
    have k1: "1 \<le> length kw" using assms(2) by (cases kw) simp_all
    have idx: "length ?s - length pat + ?i = length p + (length kw - 1)"
      using l lt k1 unfolding length_append by linarith
    have "pat ! ?i = (drop (length ?s - length pat) ?s) ! ?i" by (simp only: d)
    also have "\<dots> = ?s ! (length ?s - length pat + ?i)" by (rule nth_drop) simp
    also have "\<dots> = ?s ! (length p + (length kw - 1))" by (simp only: idx)
    also have "\<dots> = (kw @ q) ! (length kw - 1)" by (rule nth_append_length_plus)
    also have "\<dots> = kw ! (length kw - 1)"
    proof -
      have "length kw - 1 < length kw" using k1 by linarith
      then show ?thesis by (simp only: nth_append if_True)
    qed
    also have "\<dots> = last kw" using assms(2) by (simp add: last_conv_nth)
    finally have "pat ! ?i = last kw" .
    then have "last kw \<in> set pat" using i nth_mem[of ?i pat] by simp
    then show False using assms(3) by simp
  qed
  then have "take (length ?s - n) ?s = p @ kw @ take (length q - n) q"
    using assms(4) by simp
  then show ?thesis by blast
qed

lemma clean_sql_output_keeps:
  assumes "py_contains kw sql0" "kw \<noteq> []" "\<not> py_isspace (hd kw)" "\<not> py_isspace (last kw)"
    "hd kw \<notin> set ''```sql''" "last kw \<notin> set ''```''"
  shows "py_contains kw (clean_sql_output sql0)"
proof -
  define sql1 where "sql1 = py_strip sql0"
  define sql2 where "sql2 = (if py_startswith sql1 ''```sql'' then drop 6 sql1
                  else if py_startswith sql1 ''```'' then drop 3 sql1
                  else sql1)"
  define sql3 where "sql3 = (if py_endswith sql2 ''```'' then take (length sql2 - 3) sql2 else sql2)"
  define sql4 where "sql4 = py_strip sql3"
  note keep = py_strip_keeps[OF assms(2,3,4)]
  obtain p0 q0 where 0: "sql0 = p0 @ kw @ q0" using assms(1) unfolding py_contains_iff by blast
  obtain p1 q1 where 1: "sql1 = p1 @ kw @ q1" unfolding sql1_def 0 using keep by blast
  have h3: "hd kw \<notin> set ''```''" using assms(5) by simp
  have "\<exists>p2. sql2 = p2 @ kw @ q1"
  proof (cases "py_startswith sql1 ''```sql''")
    case True
    then have s2: "sql2 = drop 6 sql1" by (simp add: sql2_def)
    have "\<exists>p'. drop 6 (p1 @ kw @ q1) = p' @ kw @ q1"
      by (rule drop_prefix_keeps[where pat = "''```sql''"]) (use True assms(2,5) 1 in simp_all)
    then show ?thesis unfolding s2 1 .
  next
    case False
    show ?thesis
    proof (cases "py_startswith sql1 ''```''")
      case True
      then have s2: "sql2 = drop 3 sql1" using False by (simp add: sql2_def)
      have "\<exists>p'. drop 3 (p1 @ kw @ q1) = p' @ kw @ q1"
        by (rule drop_prefix_keeps[where pat = "''```''"]) (use True assms(2) h3 1 in simp_all)
      then show ?thesis unfolding s2 1 .
    next
      case F2: False
      then have "sql2 = sql1" using False by (simp add: sql2_def)
      then show ?thesis using 1 by blast
    qed
  qed
  then obtain p2 where 2: "sql2 = p2 @ kw @ q1" by blast
  have "\<exists>q3. sql3 = p2 @ kw @ q3"
  proof (cases "py_endswith sql2 ''```''")
    case True
    then have s3: "sql3 = take (length sql2 - 3) sql2" by (simp add: sql3_def)
    have "\<exists>q'. take (length (p2 @ kw @ q1) - 3) (p2 @ kw @ q1) = p2 @ kw @ q'"
      by (rule take_suffix_keeps[where pat = "''```''"]) (use True assms(2,6) 2 in simp_all)
    then show ?thesis unfolding s3 2 .
  next
    case False
    then show ?thesis using 2 by (simp add: sql3_def)
  qed
  then obtain q3 where 3: "sql3 = p2 @ kw @ q3" by blast
  obtain p4 q4 where 4: "sql4 = p4 @ kw @ q4" unfolding sql4_def 3 using keep by blast
  have "clean_sql_output sql0 = (if \<not> py_endswith sql4 '';'' then sql4 @ '';'' else sql4)"
    unfolding clean_sql_output_def Let_def sql4_def sql3_def sql2_def sql1_def by (rule refl)
  then have "clean_sql_output sql0 = sql4 \<or> clean_sql_output sql0 = sql4 @ '';''"
    by (cases "py_endswith sql4 '';''") simp_all
  then have "clean_sql_output sql0 = p4 @ kw @ q4 \<or> clean_sql_output sql0 = p4 @ kw @ (q4 @ '';'')"
    using 4 by simp
  then show ?thesis unfolding py_contains_iff by blast
qed

text \<open>
  Claim C2, as stated: the pass-1 statement of a table never contains \<open>FOREIGN KEY\<close>. The
  statement is whatever the language model replied, cleaned by \<open>_clean_sql_output\<close>; a reply
  with an inline constraint keeps it.
\<close>

theorem C2_keyword_counterexample:
  "py_contains ''FOREIGN KEY''
     (pass1_table_ddl
        (\<lambda>tname metadata_context. ''CREATE TABLE city (country_id INT, FOREIGN KEY (country_id) REFERENCES country)'')
        ''city'' ''## Table: city'')"
  by (simp add: pass1_table_ddl_def clean_sql_output_def py_strip_def py_lstrip_def py_rstrip_def
      py_isspace_def py_startswith_def py_endswith_def)

text \<open>
  Claim C2, amended: the pass-1 statement of a table is the reply of the language model
  with surrounding white space and a Markdown fence removed and a semicolon appended when
  it is missing; no step filters constraints. Hence the statement contains \<open>FOREIGN KEY\<close>
  exactly when the reply contains it, and \<open>CREATE INDEX\<close> exactly when the reply contains it.
\<close>

theorem C2_pass1_keywords:
  "(py_contains ''FOREIGN KEY'' (pass1_table_ddl llm_convert_table tname metadata_context)
      \<longleftrightarrow> py_contains ''FOREIGN KEY'' (llm_convert_table tname metadata_context))
   \<and> (py_contains ''CREATE INDEX'' (pass1_table_ddl llm_convert_table tname metadata_context)
      \<longleftrightarrow> py_contains ''CREATE INDEX'' (llm_convert_table tname metadata_context))"
proof (intro conjI iffI)
  show "py_contains ''FOREIGN KEY'' (llm_convert_table tname metadata_context)"
    if "py_contains ''FOREIGN KEY'' (pass1_table_ddl llm_convert_table tname metadata_context)"
    using that unfolding pass1_table_ddl_def
    by (rule clean_sql_output_contains_only) simp_all
  show "py_contains ''CREATE INDEX'' (llm_convert_table tname metadata_context)"
    if "py_contains ''CREATE INDEX'' (pass1_table_ddl llm_convert_table tname metadata_context)"
    using that unfolding pass1_table_ddl_def
    by (rule clean_sql_output_contains_only) simp_all
  show "py_contains ''FOREIGN KEY'' (pass1_table_ddl llm_convert_table tname metadata_context)"
    if "py_contains ''FOREIGN KEY'' (llm_convert_table tname metadata_context)"
    using that unfolding pass1_table_ddl_def
    by (rule clean_sql_output_keeps) (simp_all add: py_isspace_def)
  show "py_contains ''CREATE INDEX'' (pass1_table_ddl llm_convert_table tname metadata_context)"
    if "py_contains ''CREATE INDEX'' (llm_convert_table tname metadata_context)"
    using that unfolding pass1_table_ddl_def
    by (rule clean_sql_output_keeps) (simp_all add: py_isspace_def)
qed

lemma plain_reply_no_fk:
  "\<not> py_contains ''FOREIGN KEY'' ''```sql CREATE TABLE city (city_id INT)```''"
  by (simp add: py_startswith_def)

theorem C2_pass1_keywords_witness:
  "\<not> py_contains ''FOREIGN KEY''
     (pass1_table_ddl (\<lambda>tname metadata_context. ''```sql CREATE TABLE city (city_id INT)```'')
        ''city'' ''## Table: city'')"
  using C2_pass1_keywords [of "\<lambda>tname metadata_context. ''```sql CREATE TABLE city (city_id INT)```''" "''city''" "''## Table: city''"]
    plain_reply_no_fk
  by blast

subsection \<open>The foreign-key pass\<close>

lemma collect_fks_eq:
  "collect_fks cp tname fks (outgoing_fks, deferred_fks) =
     (outgoing_fks @ map (fk_data cp tname) fks,
      deferred_fks @ filter is_deferred (map (fk_data cp tname) fks))"
  by (induction fks arbitrary: outgoing_fks deferred_fks) (simp_all add: Let_def)

lemma index_rebuild:
  "\<lparr>idx_name = idx_name idx, idx_columns = idx_columns idx, idx_unique = idx_unique idx\<rparr> = (idx :: Index)"
  by (cases idx) simp

lemma create_table_blueprint_sel:
  "bp_table_name (create_table_blueprint cp t) = table_name t"
  "bp_outgoing (create_table_blueprint cp t) = map (fk_data cp (table_name t)) (foreign_keys t)"
  "bp_deferred (create_table_blueprint cp t) = filter is_deferred (map (fk_data cp (table_name t)) (foreign_keys t))"
  "bp_indexes (create_table_blueprint cp t) = indexes t"
  "bp_columns (create_table_blueprint cp t) = []"
  by (simp_all add: create_table_blueprint_def collect_fks_eq index_rebuild)

lemma fk_statements_eq:
  "fk_statements tname fks acc =
     acc @ map (alter_stmt tname)
             (filter (\<lambda>fk. bfk_columns fk \<noteq> [] \<and> references_table fk \<noteq> [] \<and> references_columns fk \<noteq> []) fks)"
  by (induction fks arbitrary: acc) simp_all

lemma generate_deferred_fks_loop_eq:
  "generate_deferred_fks_loop bps acc =
     acc @ concat (map (\<lambda>bp. map (alter_stmt (bp_table_name bp))
             (filter (\<lambda>fk. bfk_columns fk \<noteq> [] \<and> references_table fk \<noteq> [] \<and> references_columns fk \<noteq> [])
                (bp_outgoing bp))) bps)"
  by (induction bps arbitrary: acc) (simp_all add: fk_statements_eq)

lemma alter_stmt_any_flag:
  "alter_stmt tname (fk_data cp tname fk) = alter_stmt tname (fk_data cp' tname fk)"
  by (simp add: alter_stmt_def fk_data_def)

lemma fk_data_sel:
  "bfk_columns (fk_data cp tname fk) = fk_columns fk"
  "references_table (fk_data cp tname fk) = referred_table fk"
  "references_columns (fk_data cp tname fk) = referred_columns fk"
  by (simp_all add: fk_data_def)

text \<open>
  Claim C3, as stated: every declared foreign key gets an \<open>ALTER TABLE\<close> statement. The loop
  skips an entry without columns, without a referenced table or without referenced columns:
  of the two foreign keys of \<open>rental_table\<close> only the first is emitted.
\<close>

theorem C3_dropped_fk_counterexample:
  "length (foreign_keys rental_table) = 2
   \<and> generate_deferred_fks [create_table_blueprint {} rental_table]
       = [alter_stmt ''rental''
            (fk_data {} ''rental'' (mk_fk ''fk_rental_inventory'' [''inventory_id''] ''inventory'' [''inventory_id'']))]"
  by (simp add: generate_deferred_fks_def generate_deferred_fks_loop_eq create_table_blueprint_sel
      fk_data_sel rental_table_def mk_table_def mk_fk_def)

text \<open>
  Claim C3, amended: with one blueprint per table, the foreign-key pass emits, table by
  table in the order of the directory scan and within a table in the order of the
  declarations, exactly one \<open>ALTER TABLE \<dots> ADD CONSTRAINT\<close> statement for every foreign key that
  has at least one column, a referenced table and at least one referenced column; the
  statements do not depend on which pairs were flagged circular. A foreign key that lacks
  one of the three parts is skipped.
\<close>

theorem C3_deferred_fk_pass:
  "generate_deferred_fks (map (create_table_blueprint circular_pairs) tables) =
     concat (map (\<lambda>t. map (\<lambda>fk. alter_stmt (table_name t) (fk_data {} (table_name t) fk))
                         (filter (\<lambda>fk. fk_columns fk \<noteq> [] \<and> referred_table fk \<noteq> []
                                        \<and> referred_columns fk \<noteq> [])
                            (foreign_keys t)))
                 tables)"
proof -
  have "map (alter_stmt (table_name t))
          (filter (\<lambda>fk. bfk_columns fk \<noteq> [] \<and> references_table fk \<noteq> [] \<and> references_columns fk \<noteq> [])
             (map (fk_data circular_pairs (table_name t)) (foreign_keys t)))
        = map (\<lambda>fk. alter_stmt (table_name t) (fk_data {} (table_name t) fk))
            (filter (\<lambda>fk. fk_columns fk \<noteq> [] \<and> referred_table fk \<noteq> [] \<and> referred_columns fk \<noteq> [])
               (foreign_keys t))" for t :: TableMetadata
    by (simp add: filter_map comp_def fk_data_sel alter_stmt_any_flag[of _ circular_pairs _ "{}"])
  then show ?thesis
    by (simp add: generate_deferred_fks_def generate_deferred_fks_loop_eq comp_def
        create_table_blueprint_sel)
qed

theorem C3_deferred_fk_pass_witness:
  "generate_deferred_fks
     (map (create_table_blueprint (detect_circular_fks store_staff_tables)) store_staff_tables)
   = [alter_stmt ''store''
        (fk_data {} ''store'' (mk_fk ''fk_store_staff'' [''manager_staff_id''] ''staff'' [''staff_id''])),
      alter_stmt ''staff''
        (fk_data {} ''staff'' (mk_fk ''fk_staff_store'' [''store_id''] ''store'' [''store_id''])),
      alter_stmt ''staff''
        (fk_data {} ''staff'' (mk_fk ''fk_staff_boss'' [''reports_to''] ''staff'' [''staff_id'']))]"
  using C3_deferred_fk_pass [of "detect_circular_fks store_staff_tables" store_staff_tables]
  by (simp add: store_staff_tables_def mk_table_def mk_fk_def)

subsection \<open>The index pass\<close>

lemma index_statements_eq:
  "index_statements bp idxs acc =
     acc @ map (\<lambda>idx. index_stmt bp (target_index_name (bp_table_name bp) (the (idx_name idx))) idx)
             (filter (\<lambda>idx. \<not> idx_skipped idx) idxs)"
  by (induction idxs arbitrary: acc) simp_all

lemma generate_indexes_loop_eq:
  "generate_indexes_loop bps acc =
     acc @ concat (map (\<lambda>bp. map (\<lambda>idx. index_stmt bp (target_index_name (bp_table_name bp) (the (idx_name idx))) idx)
             (filter (\<lambda>idx. \<not> idx_skipped idx) (bp_indexes bp))) bps)"
  by (induction bps arbitrary: acc) (simp_all add: index_statements_eq)

lemma needs_gist_no_columns: "needs_gist [] idx_cols = False"
  by (induction idx_cols) (simp_all add: needs_gist_def py_upper_def)

lemma index_stmt_blueprint:
  "index_stmt (create_table_blueprint cp t) iname idx =
     ''CREATE '' @ (if idx_unique idx then ''UNIQUE '' else []) @ ''INDEX '' @ quoted iname
       @ '' ON '' @ quoted (table_name t) @ '' ('' @ py_join '', '' (map quoted (idx_columns idx)) @ '');''"
  by (simp add: index_stmt_def create_table_blueprint_sel needs_gist_no_columns)

lemma py_startswith_append: "py_startswith (p @ s) p"
  by (simp add: py_startswith_def)

lemma py_startswith_idx_fk: "py_startswith n ''idx_fk_'' \<Longrightarrow> py_startswith n ''idx_''"
proof -
  assume "py_startswith n ''idx_fk_''"
  then obtain q where "n = ''idx_fk_'' @ q" unfolding py_startswith_iff ..
  then have "n = ''idx_'' @ (''fk_'' @ q)" by simp
  then show ?thesis unfolding py_startswith_iff ..
qed

lemma target_index_name_renamed:
  assumes "py_startswith n ''idx_''" "\<not> py_startswith n (''idx_'' @ tname)"
  shows "target_index_name tname n
         = ''idx_'' @ tname @ ''_'' @ py_replace ''idx_'' [] (py_replace ''idx_fk_'' [] n)"
  using assms by (simp add: target_index_name_def Let_def)

lemma target_index_name_kept:
  assumes "\<not> py_startswith n ''idx_'' \<or> py_startswith n (''idx_'' @ tname)"
  shows "target_index_name tname n = n"
  using assms py_startswith_idx_fk[of n] by (auto simp: target_index_name_def Let_def)

text \<open>
  Claim C6, as stated: every emitted index name starts with \<open>idx_{table}_\<close>. Only names that
  start with \<open>idx_\<close> are rewritten: the unique index \<open>rental_date\<close> of table \<open>rental\<close> keeps
  its name.
\<close>

theorem C6_index_name_counterexample:
  "hd (generate_indexes [create_table_blueprint {} rental_table])
     = ''CREATE UNIQUE INDEX '' @ quoted ''rental_date'' @ '' ON '' @ quoted ''rental''
       @ '' ('' @ quoted ''rental_date'' @ '', '' @ quoted ''inventory_id'' @ '');''
   \<and> \<not> py_startswith ''rental_date'' ''idx_rental_''"
  by (simp add: generate_indexes_def generate_indexes_loop_eq create_table_blueprint_sel
      index_stmt_blueprint rental_table_def mk_table_def idx_skipped_def target_index_name_def
      py_startswith_def)

text \<open>
  Claim C6, amended: the index pass emits one \<open>CREATE [UNIQUE] INDEX\<close> statement for every
  index that has a non-empty name and at least one column. A source name that starts with
  \<open>idx_\<close> but not with \<open>idx_{table}\<close> is replaced by a name that starts with \<open>idx_{table}_\<close>;
  every other name (one that does not start with \<open>idx_\<close>, or one that already starts with
  \<open>idx_{table}\<close>) is kept as it is.
\<close>

theorem C6_index_names:
  "generate_indexes (map (create_table_blueprint circular_pairs) tables) =
     concat (map (\<lambda>t. map (\<lambda>idx. ''CREATE '' @ (if idx_unique idx then ''UNIQUE '' else []) @ ''INDEX ''
                               @ quoted (target_index_name (table_name t) (the (idx_name idx)))
                               @ '' ON '' @ quoted (table_name t) @ '' (''
                               @ py_join '', '' (map quoted (idx_columns idx)) @ '');'')
                         (filter (\<lambda>idx. \<not> idx_skipped idx) (indexes t)))
                 tables)
   \<and> (py_startswith n ''idx_'' \<and> \<not> py_startswith n (''idx_'' @ tname)
        \<longrightarrow> py_startswith (target_index_name tname n) (''idx_'' @ tname @ ''_''))
   \<and> (\<not> py_startswith n ''idx_'' \<or> py_startswith n (''idx_'' @ tname)
        \<longrightarrow> target_index_name tname n = n)"
proof (intro conjI impI)
  show "generate_indexes (map (create_table_blueprint circular_pairs) tables) =
     concat (map (\<lambda>t. map (\<lambda>idx. ''CREATE '' @ (if idx_unique idx then ''UNIQUE '' else []) @ ''INDEX ''
                               @ quoted (target_index_name (table_name t) (the (idx_name idx)))
                               @ '' ON '' @ quoted (table_name t) @ '' (''
                               @ py_join '', '' (map quoted (idx_columns idx)) @ '');'')
                         (filter (\<lambda>idx. \<not> idx_skipped idx) (indexes t)))
                 tables)"
    by (simp add: generate_indexes_def generate_indexes_loop_eq comp_def
        create_table_blueprint_sel index_stmt_blueprint)
next
  assume a: "py_startswith n ''idx_'' \<and> \<not> py_startswith n (''idx_'' @ tname)"
  have "target_index_name tname n
        = (''idx_'' @ tname @ ''_'') @ py_replace ''idx_'' [] (py_replace ''idx_fk_'' [] n)"
    using a target_index_name_renamed[of n tname] by simp
  then show "py_startswith (target_index_name tname n) (''idx_'' @ tname @ ''_'')"
    by (simp only: py_startswith_append)
next
  assume "\<not> py_startswith n ''idx_'' \<or> py_startswith n (''idx_'' @ tname)"
  then show "target_index_name tname n = n" by (rule target_index_name_kept)
qed

theorem C6_index_names_witness:
  "generate_indexes (map (create_table_blueprint {}) [rental_table])
     = [''CREATE UNIQUE INDEX '' @ quoted ''rental_date'' @ '' ON '' @ quoted ''rental''
          @ '' ('' @ quoted ''rental_date'' @ '', '' @ quoted ''inventory_id'' @ '');'',
        ''CREATE INDEX '' @ quoted ''idx_rental_inventory_id'' @ '' ON '' @ quoted ''rental''
          @ '' ('' @ quoted ''inventory_id'' @ '');'']
   \<and> py_startswith ''idx_fk_inventory_id'' ''idx_''
   \<and> \<not> py_startswith ''idx_fk_inventory_id'' (''idx_'' @ ''rental'')
   \<and> py_startswith (target_index_name ''rental'' ''idx_fk_inventory_id'') (''idx_'' @ ''rental'' @ ''_'')
   \<and> \<not> py_startswith ''rental_date'' ''idx_''
   \<and> target_index_name ''rental'' ''rental_date'' = ''rental_date''"
proof -
  have n: "target_index_name ''rental'' ''idx_fk_inventory_id'' = ''idx_rental_inventory_id''"
    by (simp add: target_index_name_def py_startswith_def)
  have s: "py_startswith ''idx_fk_inventory_id'' ''idx_''"
    "\<not> py_startswith ''idx_fk_inventory_id'' (''idx_'' @ ''rental'')"
    "\<not> py_startswith ''rental_date'' ''idx_''"
    by (simp_all add: py_startswith_def)
  show ?thesis
    using C6_index_names [of "{}" "[rental_table]" "''idx_fk_inventory_id''" "''rental''"]
      C6_index_names [of "{}" "[rental_table]" "''rental_date''" "''rental''"] n s
    by (simp add: rental_table_def mk_table_def idx_skipped_def target_index_name_kept)
qed

subsection \<open>Clearing the destination table\<close>

lemma target_execute_sent:
  "snd (snd (target_execute exec stmt w)) = snd w @ [stmt]"
  by (simp add: target_execute_def split: prod.splits)

lemma target_execute_plain:
  "target_execute plain_target (DeleteFrom t) (db, sent) = (ExecOk, (db(t := []), sent @ [DeleteFrom t]))"
  "target_execute plain_target (InsertInto t cols rows) (db, sent)
     = (ExecOk, (db(t := db t @ rows), sent @ [InsertInto t cols rows]))"
  by (simp_all add: target_execute_def plain_target_def)

lemma fetch_batch_empty: "0 < batch_size \<Longrightarrow> fetch_batch source_rows batch_size offset = [] \<longleftrightarrow> drop offset source_rows = []"
  by (auto simp: fetch_batch_def)

lemma fetch_batch_rest:
  "drop offset source_rows
     = fetch_batch source_rows batch_size offset @ drop (offset + batch_size) source_rows"
proof -
  have "drop offset source_rows
        = take batch_size (drop offset source_rows) @ drop batch_size (drop offset source_rows)"
    by (simp only: append_take_drop_id)
  also have "drop batch_size (drop offset source_rows) = drop (offset + batch_size) source_rows"
    by (simp add: add.commute)
  finally show ?thesis by (simp only: fetch_batch_def)
qed

lemma insert_batches_sent:
  "\<exists>ins. snd (snd (insert_batches exec transform tname cols source_rows batch_size offset total_rows w))
           = snd w @ ins \<and> list_all (is_insert_into tname) ins"
proof (induction exec transform tname cols source_rows batch_size offset total_rows w
       rule: insert_batches.induct)
  case (1 exec transform tname cols source_rows batch_size offset total_rows w)
  define rows where "rows = fetch_batch source_rows batch_size offset"
  define stmt where "stmt = InsertInto tname cols (map transform rows)"
  obtain r w' where e: "target_execute exec stmt w = (r, w')"
    by (cases "target_execute exec stmt w")
  have s: "snd w' = snd w @ [stmt]"
    using target_execute_sent[of exec stmt w] e by simp
  have i: "is_insert_into tname stmt" by (simp add: stmt_def is_insert_into_def)
  show ?case
  proof (cases "rows = []")
    case True
    then have "insert_batches exec transform tname cols source_rows batch_size offset total_rows w
               = (Inr total_rows, w)"
      by (subst insert_batches.simps) (simp add: rows_def)
    then have "snd (snd (insert_batches exec transform tname cols source_rows batch_size offset total_rows w))
               = snd w @ [] \<and> list_all (is_insert_into tname) []"
      by simp
    then show ?thesis by blast
  next
    case False
    show ?thesis
    proof (cases r)
      case (ExecFailed err)
      have "insert_batches exec transform tname cols source_rows batch_size offset total_rows w
               = (Inl err, w')"
        using False e ExecFailed
        by (subst insert_batches.simps) (simp add: rows_def stmt_def)
      then have "snd (snd (insert_batches exec transform tname cols source_rows batch_size offset total_rows w))
               = snd w @ [stmt] \<and> list_all (is_insert_into tname) [stmt]"
        using s i by simp
      then show ?thesis by blast
    next
      case ExecOk
      have eq: "insert_batches exec transform tname cols source_rows batch_size offset total_rows w
               = insert_batches exec transform tname cols source_rows batch_size
                   (offset + batch_size) (total_rows + length rows) w'"
        using False e ExecOk
        by (subst insert_batches.simps) (simp add: rows_def stmt_def)
      have "\<exists>ins. snd (snd (insert_batches exec transform tname cols source_rows batch_size
                   (offset + batch_size) (total_rows + length rows) w'))
           = snd w' @ ins \<and> list_all (is_insert_into tname) ins"
        using False e ExecOk
        by (intro "1.IH"[of rows ExecOk w']) (simp_all add: rows_def stmt_def)
      then obtain ins where ins: "snd (snd (insert_batches exec transform tname cols source_rows batch_size
                   (offset + batch_size) (total_rows + length rows) w'))
           = snd w' @ ins" "list_all (is_insert_into tname) ins"
        by blast
      have "snd (snd (insert_batches exec transform tname cols source_rows batch_size offset total_rows w))
               = snd w @ (stmt # ins) \<and> list_all (is_insert_into tname) (stmt # ins)"
        using ins s i by (simp add: eq)
      then show ?thesis by blast
    qed
  qed
qed

lemma agent_migrate_table_sent:
  "\<exists>ins. snd (snd (DataMigrationAgent_migrate_table exec transform batch_size cols source_rows tname w))
           = snd w @ (if cols = [] then [] else DeleteFrom tname # ins)
         \<and> list_all (is_insert_into tname) ins"
proof (cases "cols = []")
  case True
  then have "snd (snd (DataMigrationAgent_migrate_table exec transform batch_size cols source_rows tname w))
           = snd w @ (if cols = [] then [] else DeleteFrom tname # [])
         \<and> list_all (is_insert_into tname) []"
    by (simp add: DataMigrationAgent_migrate_table_def)
  then show ?thesis by blast
next
  case False
  obtain r w' where e: "target_execute exec (DeleteFrom tname) w = (r, w')"
    by (cases "target_execute exec (DeleteFrom tname) w")
  have s: "snd w' = snd w @ [DeleteFrom tname]"
    using target_execute_sent[of exec "DeleteFrom tname" w] e by simp
  show ?thesis
  proof (cases r)
    case (ExecFailed err)
    then have "snd (snd (DataMigrationAgent_migrate_table exec transform batch_size cols source_rows tname w))
           = snd w @ (if cols = [] then [] else DeleteFrom tname # [])
         \<and> list_all (is_insert_into tname) []"
      using False e s by (simp add: DataMigrationAgent_migrate_table_def)
    then show ?thesis by blast
  next
    case ExecOk
    obtain ins where ins:
      "snd (snd (insert_batches exec transform tname cols source_rows batch_size 0 0 w')) = snd w' @ ins"
      "list_all (is_insert_into tname) ins"
      using insert_batches_sent[of exec transform tname cols source_rows batch_size 0 0 w'] by blast
    have "snd (snd (DataMigrationAgent_migrate_table exec transform batch_size cols source_rows tname w))
           = snd (snd (insert_batches exec transform tname cols source_rows batch_size 0 0 w'))"
      using False e ExecOk
      by (simp add: DataMigrationAgent_migrate_table_def split: prod.splits sum.splits)
    then have "snd (snd (DataMigrationAgent_migrate_table exec transform batch_size cols source_rows tname w))
           = snd w @ (if cols = [] then [] else DeleteFrom tname # ins)
         \<and> list_all (is_insert_into tname) ins"
      using False ins s by simp
    then show ?thesis by blast
  qed
qed

lemma insert_batches_plain:
  assumes "0 < batch_size"
  shows "\<exists>ins. insert_batches plain_target transform tname cols source_rows batch_size offset total_rows (db, sent)
         = (Inr (total_rows + length (drop offset source_rows)),
            (db(tname := db tname @ map transform (drop offset source_rows)), sent @ ins))"
  using assms
proof (induction "length source_rows - offset" arbitrary: offset total_rows db sent rule: less_induct)
  case less
  define rows where "rows = fetch_batch source_rows batch_size offset"
  show ?case
  proof (cases "rows = []")
    case True
    then have d: "drop offset source_rows = []"
      using fetch_batch_empty[OF less.prems, of source_rows offset] unfolding rows_def by blast
    have "insert_batches plain_target transform tname cols source_rows batch_size offset total_rows (db, sent)
          = (Inr total_rows, (db, sent))"
      using True by (subst insert_batches.simps) (simp add: rows_def)
    then have "insert_batches plain_target transform tname cols source_rows batch_size offset total_rows (db, sent)
         = (Inr (total_rows + length (drop offset source_rows)),
            (db(tname := db tname @ map transform (drop offset source_rows)), sent @ []))"
      by (simp add: d)
    then show ?thesis by blast
  next
    case False
    then have lt: "offset < length source_rows" "length source_rows - (offset + batch_size) < length source_rows - offset"
      using less.prems by (auto simp: rows_def fetch_batch_def)
    define db' where "db' = db(tname := db tname @ map transform rows)"
    define stmt where "stmt = InsertInto tname cols (map transform rows)"
    have eq: "insert_batches plain_target transform tname cols source_rows batch_size offset total_rows (db, sent)
          = insert_batches plain_target transform tname cols source_rows batch_size
              (offset + batch_size) (total_rows + length rows) (db', sent @ [stmt])"
      using False
      by (subst insert_batches.simps) (simp add: rows_def target_execute_plain db'_def stmt_def Let_def)
    obtain ins where ins: "insert_batches plain_target transform tname cols source_rows batch_size
              (offset + batch_size) (total_rows + length rows) (db', sent @ [stmt])
         = (Inr (total_rows + length rows + length (drop (offset + batch_size) source_rows)),
            (db'(tname := db' tname @ map transform (drop (offset + batch_size) source_rows)),
             (sent @ [stmt]) @ ins))"
      using less.hyps[OF lt(2) less.prems, of "total_rows + length rows" db' "sent @ [stmt]"] by blast
    have r: "drop offset source_rows = rows @ drop (offset + batch_size) source_rows"
      unfolding rows_def by (rule fetch_batch_rest)
    have "insert_batches plain_target transform tname cols source_rows batch_size offset total_rows (db, sent)
         = (Inr (total_rows + length (drop offset source_rows)),
            (db(tname := db tname @ map transform (drop offset source_rows)), sent @ (stmt # ins)))"
      unfolding eq ins r by (simp add: db'_def)
    then show ?thesis by blast
  qed
qed

lemma agent_migrate_table_plain:
  assumes "cols \<noteq> []" "0 < batch_size"
  shows "fst (snd (DataMigrationAgent_migrate_table plain_target transform batch_size cols source_rows
                     tname (db, sent)))
         = db(tname := map transform source_rows)"
proof -
  obtain ins where "insert_batches plain_target transform tname cols source_rows batch_size 0 0
                      (db(tname := []), sent @ [DeleteFrom tname])
         = (Inr (0 + length (drop 0 source_rows)),
            ((db(tname := []))(tname := (db(tname := [])) tname @ map transform (drop 0 source_rows)),
             (sent @ [DeleteFrom tname]) @ ins))"
    using insert_batches_plain[OF assms(2), of transform tname cols source_rows 0 0
        "db(tname := [])" "sent @ [DeleteFrom tname]"] by blast
  then show ?thesis
    using assms(1) by (simp add: DataMigrationAgent_migrate_table_def target_execute_plain)
qed

lemma bulk_insert_sent:
  "\<exists>ins. snd (snd (bulk_insert exec tname rows cols w)) = snd w @ ins \<and> list_all (is_insert_into tname) ins"
proof (cases "rows = []")
  case True
  then have "snd (snd (bulk_insert exec tname rows cols w)) = snd w @ [] \<and> list_all (is_insert_into tname) []"
    by (simp add: bulk_insert_def)
  then show ?thesis by blast
next
  case False
  then have "snd (snd (bulk_insert exec tname rows cols w)) = snd w @ [InsertInto tname cols rows]
             \<and> list_all (is_insert_into tname) [InsertInto tname cols rows]"
    by (simp add: bulk_insert_def target_execute_sent is_insert_into_def)
  then show ?thesis by blast
qed

lemma migrate_batches_sent:
  "\<exists>ins. snd (snd (migrate_batches exec transform_row tname column_names batches batch_num acc w))
           = snd w @ ins \<and> list_all (is_insert_into tname) ins"
proof (induction batches arbitrary: batch_num acc w)
  case Nil
  have "snd (snd (migrate_batches exec transform_row tname column_names [] batch_num acc w))
           = snd w @ [] \<and> list_all (is_insert_into tname) []"
    by simp
  then show ?case by blast
next
  case (Cons batch batches)
  obtain total_rows errs where acc: "acc = (total_rows, errs)" by (cases acc)
  obtain r w' where b: "bulk_insert exec tname (map transform_row batch) column_names w = (r, w')"
    by (cases "bulk_insert exec tname (map transform_row batch) column_names w")
  obtain ins1 where ins1: "snd w' = snd w @ ins1" "list_all (is_insert_into tname) ins1"
    using bulk_insert_sent[of exec tname "map transform_row batch" column_names w] b by auto
  obtain n' acc' where step:
    "migrate_batches exec transform_row tname column_names (batch # batches) batch_num acc w
       = migrate_batches exec transform_row tname column_names batches n' acc' w'"
    using acc b by (cases r) (simp_all add: Let_def)
  obtain ins2 where ins2:
    "snd (snd (migrate_batches exec transform_row tname column_names batches n' acc' w')) = snd w' @ ins2"
    "list_all (is_insert_into tname) ins2"
    using Cons.IH[of n' acc' w'] by blast
  have "snd (snd (migrate_batches exec transform_row tname column_names (batch # batches) batch_num acc w))
           = snd w @ (ins1 @ ins2) \<and> list_all (is_insert_into tname) (ins1 @ ins2)"
    unfolding step using ins1 ins2 by simp
  then show ?case by blast
qed

lemma migrator_migrate_table_sent:
  "\<exists>ins. snd (snd (DataMigrator_migrate_table exec transform_row batch_size column_names source_rows tname w))
           = snd w @ ins \<and> list_all (is_insert_into tname) ins"
proof -
  have "snd (DataMigrator_migrate_table exec transform_row batch_size column_names source_rows tname w)
        = snd (migrate_batches exec transform_row tname column_names
             (stream_source_data source_rows batch_size 0) 0 (0, []) w)"
    by (simp add: DataMigrator_migrate_table_def split: prod.splits)
  then show ?thesis
    using migrate_batches_sent[of exec transform_row tname column_names
        "stream_source_data source_rows batch_size 0" 0 "(0, [])" w]
    by simp
qed

lemma stream_source_data_concat:
  assumes "0 < batch_size"
  shows "concat (stream_source_data source_rows batch_size offset) = drop offset source_rows"
  using assms
proof (induction "length source_rows - offset" arbitrary: offset rule: less_induct)
  case less
  define rows where "rows = fetch_batch source_rows batch_size offset"
  show ?case
  proof (cases "rows = []")
    case True
    then have d: "drop offset source_rows = []"
      using fetch_batch_empty[OF less.prems, of source_rows offset] unfolding rows_def by blast
    have "stream_source_data source_rows batch_size offset = []"
      using True by (subst stream_source_data.simps) (simp add: rows_def)
    then show ?thesis by (simp add: d)
  next
    case False
    then have lt: "length source_rows - (offset + batch_size) < length source_rows - offset"
      using less.prems by (auto simp: rows_def fetch_batch_def)
    have "stream_source_data source_rows batch_size offset
          = rows # stream_source_data source_rows batch_size (offset + batch_size)"
      using False by (subst stream_source_data.simps) (simp add: rows_def)
    then have "concat (stream_source_data source_rows batch_size offset)
          = rows @ drop (offset + batch_size) source_rows"
      using less.hyps[OF lt less.prems] by simp
    then show ?thesis
      unfolding rows_def using fetch_batch_rest[of offset source_rows batch_size] by simp
  qed
qed

lemma migrate_batches_plain:
  "fst (snd (migrate_batches plain_target transform_row tname column_names batches batch_num acc
               (db, sent)))
   = db(tname := db tname @ map transform_row (concat batches))"
proof (induction batches arbitrary: batch_num acc db sent)
  case Nil
  show ?case by simp
next
  case (Cons batch batches)
  obtain total_rows errs where acc: "acc = (total_rows, errs)" by (cases acc)
  show ?case
  proof (cases "batch = []")
    case True
    then show ?thesis
      using Cons.IH by (simp add: acc bulk_insert_def)
  next
    case False
    define db' where "db' = db(tname := db tname @ map transform_row batch)"
    define sent' where "sent' = sent @ [InsertInto tname column_names (map transform_row batch)]"
    have step: "migrate_batches plain_target transform_row tname column_names (batch # batches)
                  batch_num acc (db, sent)
                = migrate_batches plain_target transform_row tname column_names batches
                    (batch_num + 1) (total_rows + length (map transform_row batch), errs) (db', sent')"
      using False by (simp add: acc bulk_insert_def target_execute_plain db'_def sent'_def Let_def)
    have "fst (snd (migrate_batches plain_target transform_row tname column_names batches
                    (batch_num + 1) (total_rows + length (map transform_row batch), errs) (db', sent')))
          = db'(tname := db' tname @ map transform_row (concat batches))"
      by (rule Cons.IH)
    also have "\<dots> = db(tname := db tname @ map transform_row (concat (batch # batches)))"
      by (simp add: db'_def)
    finally show ?thesis unfolding step .
  qed
qed

lemma migrator_migrate_table_plain:
  assumes "0 < batch_size"
  shows "fst (snd (DataMigrator_migrate_table plain_target transform_row batch_size column_names
                     source_rows tname (db, sent)))
         = db(tname := db tname @ map transform_row source_rows)"
proof -
  have "snd (DataMigrator_migrate_table plain_target transform_row batch_size column_names
                     source_rows tname (db, sent))
        = snd (migrate_batches plain_target transform_row tname column_names
             (stream_source_data source_rows batch_size 0) 0 (0, []) (db, sent))"
    by (simp add: DataMigrator_migrate_table_def split: prod.splits)
  then show ?thesis
    using migrate_batches_plain[of transform_row tname column_names
        "stream_source_data source_rows batch_size 0" 0 "(0, [])" db sent]
      stream_source_data_concat[OF assms, of source_rows 0]
    by simp
qed

text \<open>
  Claim C10, as stated, fails on \<open>DataMigrator.migrate_table\<close>: with batches of two rows and a
  destination in which \<open>city\<close> already holds the row \<open>Kabul\<close>, migrating the three source rows
  of \<open>city\<close> sends two inserts and no \<open>DELETE\<close>, and the old row is still there afterwards.
\<close>

theorem C10_no_clearing_counterexample:
  "snd (snd (DataMigrator_migrate_table plain_target (\<lambda>row. row) 2 [''city'']
               [''Oslo'', ''Bergen'', ''Tromso''] ''city'' (city_target, [])))
     = [InsertInto ''city'' [''city''] [''Oslo'', ''Bergen''], InsertInto ''city'' [''city''] [''Tromso'']]
   \<and> fst (snd (DataMigrator_migrate_table plain_target (\<lambda>row. row) 2 [''city'']
               [''Oslo'', ''Bergen'', ''Tromso''] ''city'' (city_target, []))) ''city''
     = [''Kabul'', ''Oslo'', ''Bergen'', ''Tromso'']"
  by code_simp

text \<open>
  Claim C10 on its two code paths. \<open>DataMigrationAgent._migrate_table\<close> does what the claim
  says: for every destination, what it sends for a table with columns is \<open>DELETE FROM\<close> that
  table followed by inserts into that table only (nothing at all for a table without
  columns); on a destination without constraints the table ends up holding exactly the
  transformed source rows and every other table is unchanged. \<open>DataMigrator.migrate_table\<close>
  sends inserts only, for every destination; on a destination without constraints the
  rows that were there before remain, followed by the transformed source rows.
\<close>

theorem C10_table_clearing:
  "(\<exists>ins. snd (snd (DataMigrationAgent_migrate_table exec transform batch_size cols source_rows tname w))
            = snd w @ (if cols = [] then [] else DeleteFrom tname # ins)
          \<and> list_all (is_insert_into tname) ins)
   \<and> (cols \<noteq> [] \<and> 0 < batch_size \<longrightarrow>
        fst (snd (DataMigrationAgent_migrate_table plain_target transform batch_size cols source_rows
                    tname (db, sent)))
        = db(tname := map transform source_rows))
   \<and> (\<exists>ins. snd (snd (DataMigrator_migrate_table exec transform batch_size cols source_rows tname w))
            = snd w @ ins
          \<and> list_all (is_insert_into tname) ins)
   \<and> (0 < batch_size \<longrightarrow>
        fst (snd (DataMigrator_migrate_table plain_target transform batch_size cols source_rows
                    tname (db, sent)))
        = db(tname := db tname @ map transform source_rows))"
proof (intro conjI impI)
  show "\<exists>ins. snd (snd (DataMigrationAgent_migrate_table exec transform batch_size cols source_rows tname w))
            = snd w @ (if cols = [] then [] else DeleteFrom tname # ins)
          \<and> list_all (is_insert_into tname) ins"
    by (rule agent_migrate_table_sent)
  show "\<exists>ins. snd (snd (DataMigrator_migrate_table exec transform batch_size cols source_rows tname w))
            = snd w @ ins
          \<and> list_all (is_insert_into tname) ins"
    by (rule migrator_migrate_table_sent)
  show "fst (snd (DataMigrationAgent_migrate_table plain_target transform batch_size cols source_rows
                    tname (db, sent)))
        = db(tname := map transform source_rows)"
    if "cols \<noteq> [] \<and> 0 < batch_size"
    using that by (simp add: agent_migrate_table_plain)
  show "fst (snd (DataMigrator_migrate_table plain_target transform batch_size cols source_rows
                    tname (db, sent)))
        = db(tname := db tname @ map transform source_rows)"
    if "0 < batch_size"
    using that by (rule migrator_migrate_table_plain)
qed

theorem C10_table_clearing_witness:
  "fst (snd (DataMigrationAgent_migrate_table plain_target (\<lambda>row. row) 2 [''city'']
               [''Oslo'', ''Bergen'', ''Tromso''] ''city'' (city_target, []))) ''city''
     = [''Oslo'', ''Bergen'', ''Tromso'']
   \<and> fst (snd (DataMigrationAgent_migrate_table plain_target (\<lambda>row. row) 2 [''city'']
               [''Oslo'', ''Bergen'', ''Tromso''] ''city'' (city_target, []))) ''country''
     = [''Afghanistan'']
   \<and> fst (snd (DataMigrator_migrate_table plain_target (\<lambda>row. row) 2 [''city'']
               [''Oslo'', ''Bergen'', ''Tromso''] ''city'' (city_target, []))) ''city''
     = [''Kabul'', ''Oslo'', ''Bergen'', ''Tromso'']"
  using C10_table_clearing [of plain_target "\<lambda>row. row" 2 "[''city'']" "[''Oslo'', ''Bergen'', ''Tromso'']"
      "''city''" "(city_target, [])" city_target "[]"]
  by (simp add: city_target_def)

subsection \<open>Decoding a well-known-binary point\<close>

lemma struct_unpack_d_slice:
  "struct_unpack_d (py_slice bs i (i + 8))
     = (if i + 8 \<le> length bs then Inr (decode_double (py_slice bs i (i + 8))) else Inl StructError)"
  by (auto simp: struct_unpack_d_def py_slice_def)

lemma convert_wkb_to_point_long:
  assumes "25 \<le> length bs"
  shows "convert_wkb_to_point float_str (Some bs)
         = Some (''('' @ float_str (decode_double (py_slice bs 9 17)) @ '', ''
                  @ float_str (decode_double (py_slice bs 17 25)) @ '')'')"
proof -
  have x: "struct_unpack_d (py_slice bs 9 17) = Inr (decode_double (py_slice bs 9 17))"
    using assms struct_unpack_d_slice[of bs 9] by simp
  have y: "struct_unpack_d (py_slice bs 17 25) = Inr (decode_double (py_slice bs 17 25))"
    using assms struct_unpack_d_slice[of bs 17] by simp
  show ?thesis
    using assms by (simp add: convert_wkb_to_point_def x y)
qed

lemma convert_wkb_to_point_short:
  assumes "length bs < 25"
  shows "convert_wkb_to_point float_str (Some bs) = None"
proof (cases "length bs < 21")
  case True
  then show ?thesis by (simp add: convert_wkb_to_point_def)
next
  case False
  have "struct_unpack_d (py_slice bs 17 25) = Inl StructError"
    using assms struct_unpack_d_slice[of bs 17] by simp
  then show ?thesis
    by (simp add: convert_wkb_to_point_def split: sum.splits)
qed

lemma point_buffer_doubles:
  "decode_double (py_slice point_buffer 9 17) = Finite False 25 (- 1)"
  "decode_double (py_slice point_buffer 17 25) = Finite True 13 (- 2)"
  by (simp_all add: point_buffer_def py_slice_def decode_double_def le_bytes_to_int_def
      normalize_float.simps Let_def)

text \<open>
  Claim C5: a buffer of at least 25 bytes (the layout with both doubles complete) decodes
  to \<open>(x, y)\<close>, where \<open>x\<close> is the little-endian double in bytes 9 to 16 and \<open>y\<close> the one in
  bytes 17 to 24, each written the way Python writes a float; the first nine bytes are not
  looked at. A shorter buffer, and no buffer at all, gives \<open>None\<close>: below 21 bytes by the
  length test, from 21 to 24 bytes because the second \<open>unpack\<close> fails and the error is caught.
  The function returns in every case. In the 25-byte example the doubles are
  \<open>25 \<times> 2\<^sup>-\<^sup>1 = 12.5\<close> and \<open>-13 \<times> 2\<^sup>-\<^sup>2 = -3.25\<close>, so the result is \<open>(12.5, -3.25)\<close> whenever
  these two floats are written \<open>12.5\<close> and \<open>-3.25\<close>.
\<close>

theorem C5_wkb_point:
  "(25 \<le> length bs \<longrightarrow>
      convert_wkb_to_point float_str (Some bs)
      = Some (''('' @ float_str (decode_double (py_slice bs 9 17)) @ '', ''
               @ float_str (decode_double (py_slice bs 17 25)) @ '')''))
   \<and> (length bs < 25 \<longrightarrow> convert_wkb_to_point float_str (Some bs) = None)
   \<and> convert_wkb_to_point float_str None = None
   \<and> length point_buffer = 25
   \<and> decode_double (py_slice point_buffer 9 17) = Finite False 25 (- 1)
   \<and> decode_double (py_slice point_buffer 17 25) = Finite True 13 (- 2)
   \<and> (float_str (Finite False 25 (- 1)) = ''12.5'' \<and> float_str (Finite True 13 (- 2)) = ''-3.25''
        \<longrightarrow> convert_wkb_to_point float_str (Some point_buffer) = Some ''(12.5, -3.25)'')"
proof (intro conjI impI)
  show "convert_wkb_to_point float_str (Some bs)
      = Some (''('' @ float_str (decode_double (py_slice bs 9 17)) @ '', ''
               @ float_str (decode_double (py_slice bs 17 25)) @ '')'')"
    if "25 \<le> length bs"
    using that by (rule convert_wkb_to_point_long)
  show "convert_wkb_to_point float_str (Some bs) = None" if "length bs < 25"
    using that by (rule convert_wkb_to_point_short)
  show "convert_wkb_to_point float_str None = None"
    by (simp add: convert_wkb_to_point_def)
  show l: "length point_buffer = 25"
    by (simp add: point_buffer_def)
  show "decode_double (py_slice point_buffer 9 17) = Finite False 25 (- 1)"
    by (rule point_buffer_doubles)
  show "decode_double (py_slice point_buffer 17 25) = Finite True 13 (- 2)"
    by (rule point_buffer_doubles)
  show "convert_wkb_to_point float_str (Some point_buffer) = Some ''(12.5, -3.25)''"
    if "float_str (Finite False 25 (- 1)) = ''12.5'' \<and> float_str (Finite True 13 (- 2)) = ''-3.25''"
  proof -
    have "convert_wkb_to_point float_str (Some point_buffer)
      = Some (''('' @ float_str (decode_double (py_slice point_buffer 9 17)) @ '', ''
               @ float_str (decode_double (py_slice point_buffer 17 25)) @ '')'')"
      by (rule convert_wkb_to_point_long) (simp add: l)
    then show ?thesis
      using that by (simp add: point_buffer_doubles)
  qed
qed

theorem C5_wkb_point_witness:
  "convert_wkb_to_point short_float_str (Some point_buffer) = Some ''(12.5, -3.25)''
   \<and> length (take 24 point_buffer) = 24
   \<and> convert_wkb_to_point short_float_str (Some (take 24 point_buffer)) = None
   \<and> convert_wkb_to_point short_float_str (Some (take 20 point_buffer)) = None"
  using C5_wkb_point [of point_buffer short_float_str]
    C5_wkb_point [of "take 24 point_buffer" short_float_str]
    C5_wkb_point [of "take 20 point_buffer" short_float_str]
  by (simp add: short_float_str_def)

end
